theory Spec2Isabelle
  imports Main "HOL-Library.Word" "HOL-Library.Sublist"
begin

unbundle bit_operations_syntax

section \<open>Data model of scripts/scanner.py\<close>

text \<open>
  A Python \<open>bytes\<close> object is a list of 8-bit words; a Python \<open>int\<close> is an \<open>int\<close>.
  Reading an element of a \<open>bytes\<close> object gives an \<open>int\<close> (\<open>uint\<close>).
\<close>

type_synonym byte = "8 word"

datatype error = IndexError | ValueError | OverflowError | SerialException

definition BROADCAST_ADDRESS :: int where
  "BROADCAST_ADDRESS = 0xFD"

definition EXTENDED_FUNCTION_CODE :: int where
  "EXTENDED_FUNCTION_CODE = 0x46"

definition START_SCAN_SUBCOMMAND :: int where
  "START_SCAN_SUBCOMMAND = 0x01"

definition CONTINUE_SCAN_SUBCOMMAND :: int where
  "CONTINUE_SCAN_SUBCOMMAND = 0x02"

definition END_SCAN_SUBCOMMAND :: int where
  "END_SCAN_SUBCOMMAND = 0x04"

definition RESPONSE_SUBCOMMAND :: int where
  "RESPONSE_SUBCOMMAND = 0x03"

definition BAUD_RATES :: "int list" where
  "BAUD_RATES = [115200, 57600, 38400, 19200, 9600, 4800, 2400, 1200]"

section \<open>calculate_crc\<close>

text \<open>
  The body of the inner loop \<open>for _ in range(8)\<close>: Python's \<open>>>\<close> on an \<open>int\<close> is
  \<open>drop_bit\<close>, \<open>&\<close> is \<open>AND\<close>, \<open>^\<close> is \<open>XOR\<close>.
\<close>

definition crc_shift :: "int \<Rightarrow> int" where
  "crc_shift crc = (if (crc AND 1) \<noteq> 0 then drop_bit 1 crc XOR 0xA001 else drop_bit 1 crc)"

text \<open>The outer loop \<open>for pos in data\<close>, with the accumulator \<open>crc\<close> passed along.\<close>

fun crc_loop :: "int \<Rightarrow> byte list \<Rightarrow> int" where
  "crc_loop crc [] = crc"
| "crc_loop crc (pos # data) = crc_loop ((crc_shift ^^ 8) (crc XOR uint pos)) data"

definition calculate_crc :: "byte list \<Rightarrow> int" where
  "calculate_crc data = crc_loop 0xFFFF data"

text \<open>
  The reference the specification describes, written on a 16-bit accumulator: start at
  0xFFFF; for each byte, XOR it in, then eight rounds of shift right by one with a
  conditional XOR of 0xA001 when the low bit was set.
\<close>

definition crc16_round :: "16 word \<Rightarrow> 16 word" where
  "crc16_round acc = (if bit acc 0 then drop_bit 1 acc XOR 0xA001 else drop_bit 1 acc)"

definition crc16_byte :: "16 word \<Rightarrow> byte \<Rightarrow> 16 word" where
  "crc16_byte acc b = (crc16_round ^^ 8) (acc XOR ucast b)"

definition crc16_modbus :: "byte list \<Rightarrow> 16 word" where
  "crc16_modbus bs = foldl crc16_byte 0xFFFF bs"

section \<open>create_command\<close>

text \<open>\<open>bytes([...])\<close>: ValueError unless every element is in \<open>range(0, 256)\<close>.\<close>

fun bytes_of_ints :: "int list \<Rightarrow> error + byte list" where
  "bytes_of_ints [] = Inr []"
| "bytes_of_ints (i # is) =
     (if 0 \<le> i \<and> i < 256
      then (case bytes_of_ints is of Inl e \<Rightarrow> Inl e | Inr bs \<Rightarrow> Inr (word_of_int i # bs))
      else Inl ValueError)"

text \<open>\<open>n.to_bytes(2, 'little')\<close>: OverflowError when \<open>n\<close> is negative or needs more than 2 bytes.\<close>

definition to_bytes_2_little :: "int \<Rightarrow> error + byte list" where
  "to_bytes_2_little n =
     (if 0 \<le> n \<and> n < 65536 then Inr [word_of_int (n mod 256), word_of_int (n div 256)]
      else Inl OverflowError)"

definition create_command :: "int \<Rightarrow> int \<Rightarrow> int \<Rightarrow> error + byte list" where
  "create_command broadcast function_code subcommand =
     (case bytes_of_ints [broadcast, function_code, subcommand] of
        Inl e \<Rightarrow> Inl e
      | Inr command \<Rightarrow>
          (case to_bytes_2_little (calculate_crc command) of
             Inl e \<Rightarrow> Inl e
           | Inr crc_bytes \<Rightarrow> Inr (command @ crc_bytes)))"

section \<open>send_command\<close>

text \<open>
  The serial line is the environment. An open port holds what the bus answers to the
  \<open>k\<close>-th command written on it (the bytes that \<open>ser.read(ser.inWaiting())\<close> returns
  after the settle delay), or that \<open>ser.write\<close> or \<open>ser.read\<close> raises
  \<open>serial.SerialException\<close>, and counts the exchanges made so far.
\<close>

datatype reply = Received "byte list" | PortFailure

record serial_port =
  line :: "nat \<Rightarrow> byte list \<Rightarrow> reply"
  exchanged :: nat

text \<open>Line 43: \<open>bytes(b for b in response if b != 0xFF)\<close>.\<close>

definition denoise :: "byte list \<Rightarrow> byte list" where
  "denoise response = [b. b \<leftarrow> response, b \<noteq> 0xFF]"

definition send_command :: "serial_port \<Rightarrow> byte list \<Rightarrow> error + (byte list \<times> serial_port)" where
  "send_command ser command =
     (case line ser (exchanged ser) command of
        PortFailure \<Rightarrow> Inl SerialException
      | Received response \<Rightarrow> Inr (denoise response, ser\<lparr>exchanged := Suc (exchanged ser)\<rparr>))"

section \<open>bytes_to_hex_array and calculate_response_crc\<close>

text \<open>\<open>f"0x{byte:02X}"\<close>: two upper-case hexadecimal digits after the prefix.\<close>

definition hex_digit :: "nat \<Rightarrow> char" where
  "hex_digit d = (if d < 10 then char_of (48 + d) else char_of (55 + d))"

definition format_02X :: "byte \<Rightarrow> string" where
  "format_02X byte = [hex_digit (unat byte div 16), hex_digit (unat byte mod 16)]"

definition bytes_to_hex_array :: "byte list \<Rightarrow> string list" where
  "bytes_to_hex_array byte_array =
     map (\<lambda>byte. ''0x'' @ format_02X byte) (take (length byte_array - 2) byte_array)"

definition calculate_response_crc :: "byte list \<Rightarrow> int" where
  "calculate_response_crc response = calculate_crc (take (length response - 2) response)"

section \<open>parse_and_print_response\<close>

text \<open>
  \<open>int(s, 16)\<close> on the strings that reach it: an optional \<open>0x\<close> or \<open>0X\<close> prefix and
  then at least one hexadecimal digit of either case; ValueError otherwise. (Python also
  accepts a sign, surrounding white space and underscores between digits; the formatter
  above produces none of them.)
\<close>

definition hex_value :: "char \<Rightarrow> nat option" where
  "hex_value c =
     (let n = (of_char c :: nat) in
      if 48 \<le> n \<and> n \<le> 57 then Some (n - 48)
      else if 65 \<le> n \<and> n \<le> 70 then Some (n - 55)
      else if 97 \<le> n \<and> n \<le> 102 then Some (n - 87)
      else None)"

fun hex_digits_value :: "nat \<Rightarrow> string \<Rightarrow> nat option" where
  "hex_digits_value acc [] = Some acc"
| "hex_digits_value acc (c # cs) =
     (case hex_value c of None \<Rightarrow> None | Some d \<Rightarrow> hex_digits_value (16 * acc + d) cs)"

definition int_base16 :: "string \<Rightarrow> error + int" where
  "int_base16 s =
     (let digits = (if take 2 s = ''0x'' \<or> take 2 s = ''0X'' then drop 2 s else s) in
      if digits = [] then Inl ValueError
      else (case hex_digits_value 0 digits of
              None \<Rightarrow> Inl ValueError
            | Some n \<Rightarrow> Inr (int n)))"

text \<open>\<open>xs[i]\<close> for a literal index \<open>i \<ge> 0\<close>: IndexError out of range.\<close>

definition list_index :: "'a list \<Rightarrow> nat \<Rightarrow> error + 'a" where
  "list_index xs i = (if i < length xs then Inr (xs ! i) else Inl IndexError)"

text \<open>\<open>xs[i:j]\<close> for literal \<open>0 \<le> i \<le> j\<close>: a slice never raises.\<close>

definition list_slice :: "nat \<Rightarrow> nat \<Rightarrow> 'a list \<Rightarrow> 'a list" where
  "list_slice i j xs = drop i (take j xs)"

text \<open>A list comprehension \<open>[f(x) for x in xs]\<close> whose \<open>f\<close> may raise.\<close>

fun map_raising :: "('a \<Rightarrow> error + 'b) \<Rightarrow> 'a list \<Rightarrow> error + 'b list" where
  "map_raising f [] = Inr []"
| "map_raising f (x # xs) =
     (case f x of
        Inl e \<Rightarrow> Inl e
      | Inr y \<Rightarrow> (case map_raising f xs of Inl e \<Rightarrow> Inl e | Inr ys \<Rightarrow> Inr (y # ys)))"

text \<open>\<open>int.from_bytes(xs, 'big')\<close> on a list of ints: \<open>bytes(xs)\<close> first, then base 256.\<close>

definition int_from_bytes_big :: "int list \<Rightarrow> error + int" where
  "int_from_bytes_big xs =
     (case bytes_of_ints xs of
        Inl e \<Rightarrow> Inl e
      | Inr bs \<Rightarrow> Inr (foldl (\<lambda>acc b. acc * 256 + uint b) 0 bs))"

text \<open>\<open>int.from_bytes(bs, 'little')\<close> on a \<open>bytes\<close> object.\<close>

definition int_from_bytes_little :: "byte list \<Rightarrow> int" where
  "int_from_bytes_little bs = foldr (\<lambda>b acc. uint b + 256 * acc) bs 0"

text \<open>
  What the program prints, one constructor per \<open>print\<close> statement of the source (the
  wording and the column layout of a line are presentation; the values it carries are kept).
\<close>

datatype msg =
    MsgScanComplete
  | MsgChecksumError
  | MsgRawResponse "string list"
  | MsgIgnoredRecord
  | MsgWrongSize
  | MsgTableHeader
  | MsgTableRule
  | MsgRow int int int
  | MsgDebugResponse "string list"
  | MsgUnrecognized
  | MsgScanning int
  | MsgOpenError int

text \<open>
  The state of the process: \<open>device_counter[0]\<close>, the cell of the mutable default
  argument of \<open>parse_and_print_response\<close>, which lives as long as the process, and the
  lines printed so far.
\<close>

record state =
  device_counter :: int
  printed :: "msg list"

definition print :: "msg \<Rightarrow> state \<Rightarrow> state" where
  "print m st = st\<lparr>printed := printed st @ [m]\<rparr>"

text \<open>
  A statement that may raise returns the exception or its value, and the state reached.
\<close>

definition parse_and_print_response :: "string list \<Rightarrow> state \<Rightarrow> (error + unit) \<times> state" where
  "parse_and_print_response hex_array st =
     (case list_index hex_array 2 of
        Inl e \<Rightarrow> (Inl e, st)
      | Inr h2 \<Rightarrow>
     (case int_base16 h2 of
        Inl e \<Rightarrow> (Inl e, st)
      | Inr subcommand \<Rightarrow>
          if subcommand \<noteq> RESPONSE_SUBCOMMAND then (Inr (), print MsgIgnoredRecord st)
          else if length hex_array \<noteq> 8 then (Inr (), print MsgWrongSize st)
          else
     (case map_raising int_base16 (list_slice 3 7 hex_array) of
        Inl e \<Rightarrow> (Inl e, st)
      | Inr serial_number_bytes \<Rightarrow>
     (case int_from_bytes_big serial_number_bytes of
        Inl e \<Rightarrow> (Inl e, st)
      | Inr serial_number \<Rightarrow>
     (case list_index hex_array 7 of
        Inl e \<Rightarrow> (Inl e, st)
      | Inr h7 \<Rightarrow>
     (case int_base16 h7 of
        Inl e \<Rightarrow> (Inl e, st)
      | Inr modbus_address \<Rightarrow>
          (let st1 = st\<lparr>device_counter := device_counter st + 1\<rparr>;
               st2 = (if device_counter st1 = 1
                      then print MsgTableRule (print MsgTableHeader st1) else st1)
           in (Inr (), print (MsgRow (device_counter st2) serial_number modbus_address) st2))))))))"

section \<open>process_response\<close>

text \<open>\<open>response[i]\<close> on a \<open>bytes\<close> object: an int, or IndexError.\<close>

definition bytes_index :: "byte list \<Rightarrow> nat \<Rightarrow> error + int" where
  "bytes_index bs i = (if i < length bs then Inr (uint (bs ! i)) else Inl IndexError)"

text \<open>
  The condition of lines 100-101, with the short-circuit evaluation of \<open>and\<close> and
  \<open>or\<close>: an operand is evaluated (and may raise) only when the ones before it did not
  decide.
\<close>

definition is_scan_reply :: "byte list \<Rightarrow> error + bool" where
  "is_scan_reply response =
     (case bytes_index response 0 of
        Inl e \<Rightarrow> Inl e
      | Inr b0 \<Rightarrow>
          if b0 \<noteq> BROADCAST_ADDRESS then Inr False
          else
     (case bytes_index response 1 of
        Inl e \<Rightarrow> Inl e
      | Inr b1 \<Rightarrow>
          if b1 \<noteq> EXTENDED_FUNCTION_CODE then Inr False
          else
     (case bytes_index response 2 of
        Inl e \<Rightarrow> Inl e
      | Inr b2 \<Rightarrow>
          if b2 = RESPONSE_SUBCOMMAND then Inr True
          else
     (case bytes_index response 2 of
        Inl e \<Rightarrow> Inl e
      | Inr b2' \<Rightarrow> Inr (b2' = END_SCAN_SUBCOMMAND)))))"

text \<open>
  \<open>response\<close> is what \<open>send_command\<close> returns, a \<open>bytes\<close> object and never \<open>None\<close>.
\<close>

definition process_response :: "byte list \<Rightarrow> bool \<Rightarrow> state \<Rightarrow> (error + bool) \<times> state" where
  "process_response response debug st =
     (if length response = 0 then (Inr True, print MsgScanComplete st)
      else
        (let received_crc = int_from_bytes_little (drop (length response - 2) response);
             calculated_crc = calculate_response_crc response
         in if received_crc \<noteq> calculated_crc
            then (Inr False,
                  print (MsgRawResponse (bytes_to_hex_array response)) (print MsgChecksumError st))
            else
              (case is_scan_reply response of
                 Inl e \<Rightarrow> (Inl e, st)
               | Inr False \<Rightarrow> (Inr False, print MsgUnrecognized st)
               | Inr True \<Rightarrow>
              (case bytes_index response 2 of
                 Inl e \<Rightarrow> (Inl e, st)
               | Inr b2 \<Rightarrow>
                   if b2 = END_SCAN_SUBCOMMAND then (Inr True, print MsgScanComplete st)
                   else
                     (let hex_array = bytes_to_hex_array response;
                          st1 = (if debug then print (MsgDebugResponse hex_array) st else st)
                      in (case parse_and_print_response hex_array st1 of
                            (Inl e, st2) \<Rightarrow> (Inl e, st2)
                          | (Inr u, st2) \<Rightarrow> (Inr False, st2)))))))"

section \<open>main\<close>

text \<open>
  The loop \<open>while True\<close> of lines 143-147. It ends only when \<open>process_response\<close>
  returns \<open>True\<close> or an exception is raised; \<open>None\<close> is a loop that never ends.
\<close>

partial_function (option) continue_scan ::
  "serial_port \<Rightarrow> bool \<Rightarrow> state \<Rightarrow> ((error + unit) \<times> state) option" where
  "continue_scan ser debug st =
     (case create_command BROADCAST_ADDRESS EXTENDED_FUNCTION_CODE CONTINUE_SCAN_SUBCOMMAND of
        Inl e \<Rightarrow> Some (Inl e, st)
      | Inr continue_scan_command \<Rightarrow>
     (case send_command ser continue_scan_command of
        Inl e \<Rightarrow> Some (Inl e, st)
      | Inr (response, ser') \<Rightarrow>
     (case process_response response debug st of
        (Inl e, st') \<Rightarrow> Some (Inl e, st')
      | (Inr stop, st') \<Rightarrow> if stop then Some (Inr (), st') else continue_scan ser' debug st')))"

declare continue_scan.simps [code]

text \<open>The body of the \<open>try\<close> block once the port is open (lines 137-150).\<close>

definition scan_open_port ::
  "serial_port \<Rightarrow> bool \<Rightarrow> state \<Rightarrow> ((error + unit) \<times> state) option" where
  "scan_open_port ser debug st =
     (case create_command BROADCAST_ADDRESS EXTENDED_FUNCTION_CODE START_SCAN_SUBCOMMAND of
        Inl e \<Rightarrow> Some (Inl e, st)
      | Inr start_scan_command \<Rightarrow>
     (case send_command ser start_scan_command of
        Inl e \<Rightarrow> Some (Inl e, st)
      | Inr (response, ser') \<Rightarrow>
     (case process_response response debug st of
        (Inl e, st') \<Rightarrow> Some (Inl e, st')
      | (Inr stop, st') \<Rightarrow>
          if \<not> stop then continue_scan ser' debug st' else Some (Inr (), st'))))"

text \<open>
  One iteration of the loop over \<open>BAUD_RATES\<close> (lines 131-152). \<open>serial_Serial\<close> is
  \<open>serial.Serial(SERIAL_PORT, baud_rate, timeout=1)\<close>: the open port, or \<open>None\<close> when
  it raises \<open>serial.SerialException\<close>. The handler catches that exception from anywhere
  in the \<open>try\<close> block; any other exception leaves \<open>main\<close>.
\<close>

definition scan_baud_rate ::
  "(int \<Rightarrow> serial_port option) \<Rightarrow> bool \<Rightarrow> int \<Rightarrow> state \<Rightarrow> ((error + unit) \<times> state) option" where
  "scan_baud_rate serial_Serial debug baud_rate st =
     (let st1 = print (MsgScanning baud_rate) st in
      (case (case serial_Serial baud_rate of
               None \<Rightarrow> Some (Inl SerialException, st1)
             | Some ser \<Rightarrow> scan_open_port ser debug st1) of
         None \<Rightarrow> None
       | Some (Inl SerialException, st2) \<Rightarrow> Some (Inr (), print (MsgOpenError baud_rate) st2)
       | Some (Inl e, st2) \<Rightarrow> Some (Inl e, st2)
       | Some (Inr u, st2) \<Rightarrow> Some (Inr (), st2)))"

fun scan_baud_rates ::
  "(int \<Rightarrow> serial_port option) \<Rightarrow> bool \<Rightarrow> int list \<Rightarrow> state \<Rightarrow> ((error + unit) \<times> state) option" where
  "scan_baud_rates serial_Serial debug [] st = Some (Inr (), st)"
| "scan_baud_rates serial_Serial debug (baud_rate # rest) st =
     (case scan_baud_rate serial_Serial debug baud_rate st of
        None \<Rightarrow> None
      | Some (Inl e, st') \<Rightarrow> Some (Inl e, st')
      | Some (Inr u, st') \<Rightarrow> scan_baud_rates serial_Serial debug rest st')"

text \<open>The state of a fresh process: the default argument is \<open>[0]\<close>, nothing is printed.\<close>

definition initial_state :: state where
  "initial_state = \<lparr>device_counter = 0, printed = []\<rparr>"

definition main :: "(int \<Rightarrow> serial_port option) \<Rightarrow> bool \<Rightarrow> ((error + unit) \<times> state) option" where
  "main serial_Serial debug = scan_baud_rates serial_Serial debug BAUD_RATES initial_state"

section \<open>Notions used in the statements\<close>

text \<open>
  The checksum test of lines 91-94 passes: the last two bytes, read little-endian, are the
  CRC of the bytes before them.
\<close>

definition checksum_valid :: "byte list \<Rightarrow> bool" where
  "checksum_valid response =
     (int_from_bytes_little (drop (length response - 2) response) = calculate_response_crc response)"

text \<open>An unsigned big-endian value of four bytes.\<close>

definition big_endian_4 :: "byte \<Rightarrow> byte \<Rightarrow> byte \<Rightarrow> byte \<Rightarrow> int" where
  "big_endian_4 a b c d = 16777216 * uint a + 65536 * uint b + 256 * uint c + uint d"

text \<open>
  The state after one more device is reported: the counter is incremented, the two lines of
  the table header are printed when this is the first device, and the row is printed.
\<close>

definition with_row :: "int \<Rightarrow> int \<Rightarrow> state \<Rightarrow> state" where
  "with_row serial_number modbus_address st =
     \<lparr>device_counter = device_counter st + 1,
      printed = printed st
        @ (if device_counter st = 0 then [MsgTableHeader, MsgTableRule] else [])
        @ [MsgRow (device_counter st + 1) serial_number modbus_address]\<rparr>"

text \<open>The sequence numbers of the table rows among the printed lines, in the order printed.\<close>

fun row_numbers :: "msg list \<Rightarrow> int list" where
  "row_numbers [] = []"
| "row_numbers (MsgRow n serial_number modbus_address # ms) = n # row_numbers ms"
| "row_numbers (m # ms) = row_numbers ms"

text \<open>The baud rates announced among the printed lines, in the order printed.\<close>

fun rates_scanned :: "msg list \<Rightarrow> int list" where
  "rates_scanned [] = []"
| "rates_scanned (MsgScanning baud_rate # ms) = baud_rate # rates_scanned ms"
| "rates_scanned (m # ms) = rates_scanned ms"

text \<open>
  The reporter's invariant: the rows printed so far are numbered 1 to \<open>device_counter\<close>;
  no header is printed before the first device, and afterwards the header was printed
  once, directly before the first row.
\<close>

definition reporter_inv :: "state \<Rightarrow> bool" where
  "reporter_inv st \<longleftrightarrow>
     0 \<le> device_counter st \<and>
     row_numbers (printed st) = [1..device_counter st] \<and>
     (if device_counter st = 0 then MsgTableHeader \<notin> set (printed st)
      else \<exists>pre serial_number modbus_address post.
             printed st = pre @ [MsgTableHeader, MsgTableRule, MsgRow 1 serial_number modbus_address] @ post \<and>
             MsgTableHeader \<notin> set pre \<and> row_numbers pre = [] \<and> MsgTableHeader \<notin> set post)"

text \<open>
  A step of the program from \<open>st\<close> to \<open>st'\<close> that only adds printed lines, none of
  them the announcement of a baud rate, and keeps the reporter's invariant.
\<close>

definition extends_quietly :: "state \<Rightarrow> state \<Rightarrow> bool" where
  "extends_quietly st st' \<longleftrightarrow>
     (\<exists>ext. printed st' = printed st @ ext \<and> rates_scanned ext = []) \<and>
     (reporter_inv st \<longrightarrow> reporter_inv st')"

text \<open>
  A response on which \<open>process_response\<close> returns \<open>True\<close>: empty, or an end-of-scan
  frame with a valid checksum.
\<close>

definition ends_scan :: "byte list \<Rightarrow> bool" where
  "ends_scan r \<longleftrightarrow>
     r = [] \<or> (checksum_valid r \<and> 3 \<le> length r \<and> r ! 0 = 0xFD \<and> r ! 1 = 0x46 \<and> r ! 2 = 0x04)"

text \<open>
  The \<open>k\<close>-th exchange on a port ends the session: the port raises, or the bytes read end
  the scan once the idle bytes are removed.
\<close>

definition exchange_ends :: "serial_port \<Rightarrow> nat \<Rightarrow> byte list \<Rightarrow> bool" where
  "exchange_ends ser k command =
     (case line ser k command of
        PortFailure \<Rightarrow> True
      | Received response \<Rightarrow> ends_scan (denoise response))"

text \<open>
  The session on a freshly opened port ends: the answer to the start command ends it, or
  the answer to one of the continue commands after it does.
\<close>

definition session_ends :: "serial_port \<Rightarrow> bool" where
  "session_ends ser \<longleftrightarrow>
     exchange_ends ser (exchanged ser) [0xFD, 0x46, 0x01, 0x13, 0x90] \<or>
     (\<exists>j. exchange_ends ser (exchanged ser + Suc j) [0xFD, 0x46, 0x02, 0x53, 0x91])"

text \<open>
  A concrete bus: at 115200 baud one device answers the start command and the scan
  ends with an empty read; at 9600 baud one device answers, the next read is a second
  device behind an idle byte, and an end-of-scan frame follows; no port opens at the other
  rates.
\<close>

definition example_bus :: "int \<Rightarrow> serial_port option" where
  "example_bus baud_rate =
     (if baud_rate = 115200
      then Some \<lparr>line = (\<lambda>k command.
                    if k = 0 then Received [0xFD, 0x46, 0x03, 0x00, 0x00, 0x01, 0x2C, 0x05, 0x24, 0x22]
                    else Received []),
                 exchanged = 0\<rparr>
      else if baud_rate = 9600
      then Some \<lparr>line = (\<lambda>k command.
                    if k = 0 then Received [0xFD, 0x46, 0x03, 0x00, 0x00, 0x01, 0x2C, 0x05, 0x24, 0x22]
                    else if k = 1
                    then Received [0xFF, 0xFD, 0x46, 0x03, 0x00, 0x00, 0x00, 0x07, 0x09, 0x6B, 0x17]
                    else Received [0xFD, 0x46, 0x04, 0xD3, 0x93]),
                 exchanged = 0\<rparr>
      else None)"

text \<open>A bus on which every port opens and every read returns the single byte 0x01.\<close>

definition babbling_bus :: "int \<Rightarrow> serial_port option" where
  "babbling_bus baud_rate = Some \<lparr>line = (\<lambda>k command. Received [0x01]), exchanged = 0\<rparr>"

section \<open>The checksum\<close>

lemma uint_drop_bit_1: "uint (drop_bit 1 (w :: 16 word)) = drop_bit 1 (uint w)"
  by (simp add: drop_bit_eq_div uint_div_distrib)

lemma low_bit_uint: "(uint (w :: 16 word) AND 1 \<noteq> 0) = bit w 0"
proof -
  have "(uint w AND 1 \<noteq> 0) = bit (uint w) 0"
    by (simp add: and_one_eq bit_0 odd_iff_mod_2_eq_one)
  then show ?thesis by (simp add: bit_uint_iff)
qed

lemma crc_shift_uint: "crc_shift (uint w) = uint (crc16_round w)"
  unfolding crc_shift_def crc16_round_def
  by (simp only: low_bit_uint uint_drop_bit_1 uint_xor if_distrib [of uint]) simp

lemma crc_shift_funpow_uint: "(crc_shift ^^ n) (uint w) = uint ((crc16_round ^^ n) w)"
  by (induction n) (simp_all add: crc_shift_uint)

lemma uint_ucast_byte: "uint (ucast (b :: byte) :: 16 word) = uint b"
  by (simp add: uint_up_ucast is_up)

lemma crc_loop_uint: "crc_loop (uint acc) bs = uint (foldl crc16_byte acc bs)"
proof (induction bs arbitrary: acc)
  case Nil
  show ?case by simp
next
  case (Cons b bs)
  have "(crc_shift ^^ 8) (uint acc XOR uint b) = uint (crc16_byte acc b)"
    unfolding crc16_byte_def
    using crc_shift_funpow_uint [of 8 "acc XOR ucast b"]
    by (simp only: uint_xor uint_ucast_byte)
  then show ?case using Cons.IH [of "crc16_byte acc b"] by simp
qed

lemma calculate_crc_uint: "calculate_crc bs = uint (crc16_modbus bs)"
  using crc_loop_uint [of "0xFFFF" bs] by (simp add: calculate_crc_def crc16_modbus_def)

lemma calculate_crc_range: "0 \<le> calculate_crc bs \<and> calculate_crc bs < 65536"
  using uint_lt2p [of "crc16_modbus bs"] by (simp add: calculate_crc_uint)

text \<open>
  Claim C2. For every byte sequence \<open>b\<close>, \<open>calculate_crc b\<close> is the CRC16/MODBUS
  reference value (accumulator started at 0xFFFF; each byte XORed in, then eight rounds of
  shift right by one with XOR of 0xA001 when the low bit was set); it is a 16-bit value, and
  the empty sequence gives 0xFFFF. Being a function, the result depends on \<open>b\<close> only.
\<close>

theorem calculate_crc_is_crc16_modbus:
  "calculate_crc b = uint (crc16_modbus b) \<and>
   0 \<le> calculate_crc b \<and> calculate_crc b < 2 ^ 16 \<and>
   calculate_crc [] = 0xFFFF"
proof -
  have "calculate_crc [] = 0xFFFF"
    by (simp add: calculate_crc_def)
  moreover have "calculate_crc b = uint (crc16_modbus b)"
    by (rule calculate_crc_uint)
  ultimately show ?thesis
    using calculate_crc_range [of b] by simp
qed

section \<open>Building a command\<close>

lemma uint_byte_less: "uint (b :: byte) < 256"
  using uint_lt2p [of b] by simp

lemma int_from_bytes_little_2:
  assumes "0 \<le> n" "n < 65536"
  shows "int_from_bytes_little [word_of_int (n mod 256) :: byte, word_of_int (n div 256)] = n"
proof -
  have a: "uint (word_of_int (n mod 256) :: byte) = n mod 256"
    by (simp add: uint_word_of_int)
  have "n div 256 < 256" using assms by simp
  moreover have "0 \<le> n div 256" using assms by simp
  ultimately have b: "uint (word_of_int (n div 256) :: byte) = n div 256"
    by (simp add: uint_word_of_int)
  show ?thesis
    unfolding int_from_bytes_little_def by (simp add: a b)
qed

text \<open>
  Claim C6. For byte-valued \<open>address\<close>, \<open>function_code\<close> and \<open>subcommand\<close>,
  \<open>create_command\<close> returns exactly five bytes: the three header bytes in order, then
  the CRC of these three bytes, low byte first. The checksum is computed from the header by
  \<open>create_command\<close> itself; the caller passes none.
\<close>

theorem create_command_frame:
  assumes "0 \<le> address \<and> address < 256"
    and "0 \<le> function_code \<and> function_code < 256"
    and "0 \<le> subcommand \<and> subcommand < 256"
  shows "\<exists>lo hi. create_command address function_code subcommand =
           Inr [word_of_int address, word_of_int function_code, word_of_int subcommand, lo, hi] \<and>
         uint lo + 256 * uint hi =
           calculate_crc [word_of_int address, word_of_int function_code, word_of_int subcommand]"
proof -
  let ?hdr = "[word_of_int address, word_of_int function_code, word_of_int subcommand] :: byte list"
  let ?crc = "calculate_crc ?hdr"
  have r: "0 \<le> ?crc" "?crc < 65536"
    using calculate_crc_range [of ?hdr] by simp_all
  have c: "create_command address function_code subcommand =
           Inr (?hdr @ [word_of_int (?crc mod 256), word_of_int (?crc div 256)])"
    using r assms by (simp add: create_command_def to_bytes_2_little_def)
  have "uint (word_of_int (?crc mod 256) :: byte) + 256 * uint (word_of_int (?crc div 256) :: byte) = ?crc"
    using int_from_bytes_little_2 [OF r] by (simp add: int_from_bytes_little_def)
  with c show ?thesis by simp
qed

lemma create_command_start:
  "create_command BROADCAST_ADDRESS EXTENDED_FUNCTION_CODE START_SCAN_SUBCOMMAND =
   Inr [0xFD, 0x46, 0x01, 0x13, 0x90]"
  by code_simp

lemma create_command_continue:
  "create_command BROADCAST_ADDRESS EXTENDED_FUNCTION_CODE CONTINUE_SCAN_SUBCOMMAND =
   Inr [0xFD, 0x46, 0x02, 0x53, 0x91]"
  by code_simp

theorem create_command_frame_witness:
  "(0 \<le> (0xFD :: int) \<and> (0xFD :: int) < 256) \<and> (0 \<le> (0x46 :: int) \<and> (0x46 :: int) < 256) \<and>
   (0 \<le> (0x01 :: int) \<and> (0x01 :: int) < 256) \<and>
   (\<exists>lo hi. create_command 0xFD 0x46 0x01 = Inr [0xFD, 0x46, 0x01, lo, hi] \<and>
      uint lo + 256 * uint hi = calculate_crc [0xFD, 0x46, 0x01])"
  using create_command_frame [of "0xFD" "0x46" "0x01"] by simp

section \<open>Removing the idle bytes\<close>

lemma denoise_filter: "denoise raw = filter (\<lambda>b. b \<noteq> 0xFF) raw"
  by (induction raw) (simp_all add: denoise_def)

text \<open>
  Claim C5. The filter of \<open>send_command\<close> removes exactly the bytes equal to 0xFF and
  keeps every other byte, in the original order: the result is the subsequence of the bytes
  different from 0xFF, and it is shorter than the input by the number of 0xFF bytes. In
  particular \<open>[0xFF, 0xFD, 0x46, 0x03, 0xFF]\<close> becomes \<open>[0xFD, 0x46, 0x03]\<close>.
\<close>

theorem denoise_removes_idle_bytes:
  "denoise raw = filter (\<lambda>b. b \<noteq> 0xFF) raw \<and>
   subseq (denoise raw) raw \<and>
   0xFF \<notin> set (denoise raw) \<and>
   length raw = length (denoise raw) + count_list raw 0xFF \<and>
   denoise [0xFF, 0xFD, 0x46, 0x03, 0xFF] = [0xFD, 0x46, 0x03]"
proof -
  have "length raw = length (filter (\<lambda>b. b \<noteq> 0xFF) raw) + count_list raw (0xFF :: byte)"
    by (induction raw) simp_all
  then show ?thesis
    by (simp add: denoise_filter)
qed

section \<open>Hexadecimal strings and short frames\<close>

lemma hex_value_hex_digit: "d < 16 \<Longrightarrow> hex_value (hex_digit d) = Some d"
  by (auto simp add: hex_value_def hex_digit_def Let_def)


lemma int_base16_format: "int_base16 (''0x'' @ format_02X b) = Inr (uint b)"
proof -
  have lt: "unat b div 16 < 16"
    using unsigned_less [of b, where ?'a = nat] by simp
  have "hex_digits_value 0 (format_02X b) = Some (16 * (unat b div 16) + unat b mod 16)"
    by (simp add: format_02X_def hex_value_hex_digit lt)
  then have "hex_digits_value 0 (format_02X b) = Some (unat b)"
    by simp
  then show ?thesis
    by (simp add: int_base16_def format_02X_def)
qed

lemma int_base16_format_Cons:
  "int_base16 (CHR ''0'' # CHR ''x'' # format_02X b) = Inr (uint b)"
  using int_base16_format [of b] by simp

lemma uint_byte_eq_numeral [simp]: "(uint (b :: byte) = 253) = (b = 253)"
  "(uint (b :: byte) = 70) = (b = 70)"  "(uint (b :: byte) = 3) = (b = 3)" "(uint (b :: byte) = 4) = (b = 4)"
  by (simp_all add: word_uint_eq_iff)

lemma is_scan_reply_ge3:
  "3 \<le> length r \<Longrightarrow>
   is_scan_reply r = Inr (r ! 0 = 0xFD \<and> r ! 1 = 0x46 \<and> (r ! 2 = 3 \<or> r ! 2 = 4))"
  by (auto simp add: is_scan_reply_def bytes_index_def BROADCAST_ADDRESS_def EXTENDED_FUNCTION_CODE_def
      RESPONSE_SUBCOMMAND_def END_SCAN_SUBCOMMAND_def)

lemma crc_FD: "calculate_crc [0xFD] = 0xC17E"
  by code_simp

lemma crc_FD_46: "calculate_crc [0xFD, 0x46] = 0xD2C0"
  by code_simp


lemma not_checksum_valid_1: "\<not> checksum_valid [b]"
  using uint_byte_less [of b]
  by (simp add: checksum_valid_def int_from_bytes_little_def calculate_response_crc_def calculate_crc_def)

lemma checksum_valid_2: "checksum_valid [a, b] \<Longrightarrow> a = 0xFF \<and> b = 0xFF"
proof -
  assume "checksum_valid [a, b]"
  then have "uint a + 256 * uint b = 65535"
    by (simp add: checksum_valid_def int_from_bytes_little_def calculate_response_crc_def calculate_crc_def)
  with uint_byte_less [of a] uint_byte_less [of b] uint_ge_0 [of a] have "uint a = 255 \<and> uint b = 255"
    by arith
  then show ?thesis by (simp add: word_uint_eq_iff)
qed

lemma checksum_valid_3: "checksum_valid [0xFD, b1, b2] \<Longrightarrow> b1 \<noteq> 0x46"
proof
  assume v: "checksum_valid [0xFD, b1, b2]" and "b1 = 0x46"
  then have "70 + 256 * uint b2 = 49534"
    by (simp add: checksum_valid_def int_from_bytes_little_def calculate_response_crc_def crc_FD)
  then show False by presburger
qed

lemma checksum_valid_4: "checksum_valid [0xFD, 0x46, b2, b3] \<Longrightarrow> b2 \<noteq> 3 \<and> b2 \<noteq> 4"
proof -
  assume v: "checksum_valid [0xFD, 0x46, b2, b3]"
  then have e: "uint b2 + 256 * uint b3 = 53952"
    by (simp add: checksum_valid_def int_from_bytes_little_def calculate_response_crc_def crc_FD_46)
  have "b2 \<noteq> 3"
  proof
    assume "b2 = 3"
    with e have "3 + 256 * uint b3 = 53952" by simp
    then show False by presburger
  qed
  moreover have "b2 \<noteq> 4"
  proof
    assume "b2 = 4"
    with e have "4 + 256 * uint b3 = 53952" by simp
    then show False by presburger
  qed
  ultimately show ?thesis by simp
qed

section \<open>The device record\<close>

lemma map_raising_int_base16:
  "map_raising int_base16 (map (\<lambda>byte. ''0x'' @ format_02X byte) bs) = Inr (map uint bs)"
  by (induction bs) (simp_all add: int_base16_format_Cons)

lemma bytes_of_ints_uint: "bytes_of_ints (map uint (bs :: byte list)) = Inr bs"
  by (induction bs) (simp_all add: uint_byte_less)

lemma length_bytes_to_hex_array: "length (bytes_to_hex_array r) = length r - 2"
  by (simp add: bytes_to_hex_array_def)

lemma list_index_hex_array:
  "i < length r - 2 \<Longrightarrow> list_index (bytes_to_hex_array r) i = Inr (''0x'' @ format_02X (r ! i))"
  by (simp add: list_index_def bytes_to_hex_array_def)

lemma slice_hex_array:
  "list_slice i j (bytes_to_hex_array r) =
   map (\<lambda>byte. ''0x'' @ format_02X byte) (list_slice i j (take (length r - 2) r))"
  by (simp add: list_slice_def bytes_to_hex_array_def drop_map take_map)

lemma serial_number_of_slice:
  assumes "length (r :: byte list) = 10"
  shows "int_from_bytes_big (map uint (list_slice 3 7 (take (length r - 2) r))) =
         Inr (big_endian_4 (r ! 3) (r ! 4) (r ! 5) (r ! 6))"
proof -
  from assms obtain b0 b1 b2 b3 b4 b5 b6 b7 b8 b9 where r: "r = [b0, b1, b2, b3, b4, b5, b6, b7, b8, b9]"
    by (auto simp add: numeral_eq_Suc length_Suc_conv)
  show ?thesis
    unfolding int_from_bytes_big_def bytes_of_ints_uint
    by (simp add: r list_slice_def big_endian_4_def)
qed

lemma parse_and_print_response_hex_array:
  assumes "5 \<le> length r" and "r ! 2 = 3"
  shows "parse_and_print_response (bytes_to_hex_array r) st =
         (Inr (),
          if length r \<noteq> 10 then print MsgWrongSize st
          else with_row (big_endian_4 (r ! 3) (r ! 4) (r ! 5) (r ! 6)) (uint (r ! 7)) st)"
proof (cases "length r = 10")
  case True
  let ?h = "bytes_to_hex_array r"
  have i2: "list_index ?h 2 = Inr (''0x'' @ format_02X 3)"
    using assms list_index_hex_array [of 2 r] by simp
  have i7: "list_index ?h 7 = Inr (''0x'' @ format_02X (r ! 7))"
    using True list_index_hex_array [of 7 r] by simp
  have len: "length ?h = 8"
    using True by (simp add: length_bytes_to_hex_array)
  have sl: "map_raising int_base16 (list_slice 3 7 ?h) =
            Inr (map uint (list_slice 3 7 (take (length r - 2) r)))"
    by (simp only: slice_hex_array map_raising_int_base16)
  have sn: "int_from_bytes_big (map uint (list_slice 3 7 (take 8 r))) =
            Inr (big_endian_4 (r ! 3) (r ! 4) (r ! 5) (r ! 6))"
    using serial_number_of_slice [OF True] True by simp
  show ?thesis
    unfolding parse_and_print_response_def i2 i7 sl
    by (simp add: True len sn int_base16_format_Cons RESPONSE_SUBCOMMAND_def print_def Let_def
        with_row_def)
next
  case False
  then have "length (bytes_to_hex_array r) \<noteq> 8"
    using assms by (simp add: length_bytes_to_hex_array)
  then show ?thesis
    using assms False
    by (simp add: parse_and_print_response_def list_index_hex_array int_base16_format_Cons
        RESPONSE_SUBCOMMAND_def)
qed

section \<open>The header test on frames that pass the checksum test\<close>

lemma is_scan_reply_valid:
  assumes "r \<noteq> []" and "checksum_valid r"
  shows "is_scan_reply r =
         Inr (3 \<le> length r \<and> r ! 0 = 0xFD \<and> r ! 1 = 0x46 \<and> (r ! 2 = 3 \<or> r ! 2 = 4))"
proof -
  from assms(1) have "length r \<noteq> 0" by simp
  then have "length r = 1 \<or> length r = 2 \<or> 3 \<le> length r" by linarith
  then consider (one) b where "r = [b]" | (two) a b where "r = [a, b]" | (more) "3 \<le> length r"
    by (auto simp add: numeral_eq_Suc length_Suc_conv)
  then show ?thesis
  proof cases
    case one
    with assms(2) show ?thesis by (simp add: not_checksum_valid_1)
  next
    case two
    with assms(2) have "a = 0xFF" using checksum_valid_2 by blast
    with two show ?thesis
      by (simp add: is_scan_reply_def bytes_index_def BROADCAST_ADDRESS_def)
  next
    case more
    then show ?thesis by (simp add: is_scan_reply_ge3)
  qed
qed

lemma scan_reply_length:
  assumes "checksum_valid r" and "3 \<le> length r" and "r ! 0 = 0xFD" and "r ! 1 = 0x46"
    and "r ! 2 = 3 \<or> r ! 2 = 4"
  shows "5 \<le> length r"
proof (rule ccontr)
  assume "\<not> 5 \<le> length r"
  with assms(2) consider "length r = 3" | "length r = 4" by linarith
  then show False
  proof cases
    case 1
    then obtain b0 b1 b2 where "r = [b0, b1, b2]"
      by (auto simp add: numeral_eq_Suc length_Suc_conv)
    with assms show False using checksum_valid_3 by auto
  next
    case 2
    then obtain b0 b1 b2 b3 where "r = [b0, b1, b2, b3]"
      by (auto simp add: numeral_eq_Suc length_Suc_conv)
    with assms show False using checksum_valid_4 by auto
  qed
qed

section \<open>process_response\<close>

lemma bytes_index_2: "3 \<le> length r \<Longrightarrow> bytes_index r 2 = Inr (uint (r ! 2))"
  by (simp add: bytes_index_def)

lemma process_response_empty: "process_response [] dbg st = (Inr True, print MsgScanComplete st)"
  by (simp add: process_response_def)

lemma process_response_mismatch:
  assumes "r \<noteq> []" and "\<not> checksum_valid r"
  shows "process_response r dbg st =
         (Inr False, print (MsgRawResponse (bytes_to_hex_array r)) (print MsgChecksumError st))"
  using assms by (simp add: process_response_def checksum_valid_def Let_def)

lemma process_response_unrecognized:
  assumes "r \<noteq> []" and "checksum_valid r"
    and "\<not> (3 \<le> length r \<and> r ! 0 = 0xFD \<and> r ! 1 = 0x46 \<and> (r ! 2 = 3 \<or> r ! 2 = 4))"
  shows "process_response r dbg st = (Inr False, print MsgUnrecognized st)"
proof -
  have "is_scan_reply r = Inr False"
    using is_scan_reply_valid [OF assms(1,2)] assms(3) by simp
  moreover have "int_from_bytes_little (drop (length r - 2) r) = calculate_response_crc r"
    using assms(2) by (simp add: checksum_valid_def)
  ultimately show ?thesis
    using assms(1) by (simp add: process_response_def Let_def)
qed

lemma process_response_end:
  assumes "checksum_valid r" and "3 \<le> length r" and "r ! 0 = 0xFD" and "r ! 1 = 0x46" and "r ! 2 = 4"
  shows "process_response r dbg st = (Inr True, print MsgScanComplete st)"
proof -
  from assms(2) have ne: "r \<noteq> []" by auto
  have "is_scan_reply r = Inr True"
    using is_scan_reply_valid [OF ne assms(1)] assms by simp
  moreover have "int_from_bytes_little (drop (length r - 2) r) = calculate_response_crc r"
    using assms(1) by (simp add: checksum_valid_def)
  ultimately show ?thesis
    using ne assms by (simp add: process_response_def Let_def bytes_index_2 END_SCAN_SUBCOMMAND_def)
qed

lemma process_response_device:
  assumes "checksum_valid r" and "3 \<le> length r" and "r ! 0 = 0xFD" and "r ! 1 = 0x46" and "r ! 2 = 3"
  shows "process_response r dbg st =
         (Inr False,
          if length r \<noteq> 10
          then print MsgWrongSize
                 (if dbg then print (MsgDebugResponse (bytes_to_hex_array r)) st else st)
          else with_row (big_endian_4 (r ! 3) (r ! 4) (r ! 5) (r ! 6)) (uint (r ! 7))
                 (if dbg then print (MsgDebugResponse (bytes_to_hex_array r)) st else st))"
proof -
  from assms(2) have ne: "r \<noteq> []" by auto
  have len: "5 \<le> length r"
    using scan_reply_length [OF assms(1-4)] assms(5) by simp
  have "is_scan_reply r = Inr True"
    using is_scan_reply_valid [OF ne assms(1)] assms by simp
  moreover have "int_from_bytes_little (drop (length r - 2) r) = calculate_response_crc r"
    using assms(1) by (simp add: checksum_valid_def)
  moreover note parse_and_print_response_hex_array [OF len assms(5)]
  ultimately show ?thesis
    using ne assms
    by (simp add: process_response_def Let_def bytes_index_2 END_SCAN_SUBCOMMAND_def)
qed

lemma process_response_total: "\<exists>b st'. process_response r dbg st = (Inr b, st')"
proof (cases "r = []")
  case True
  then show ?thesis using process_response_empty [of dbg st] by blast
next
  case ne: False
  show ?thesis
  proof (cases "checksum_valid r")
    case False
    then show ?thesis using process_response_mismatch [OF ne, of dbg st] by blast
  next
    case v: True
    show ?thesis
    proof (cases "3 \<le> length r \<and> r ! 0 = 0xFD \<and> r ! 1 = 0x46 \<and> (r ! 2 = 3 \<or> r ! 2 = 4)")
      case False
      then show ?thesis using process_response_unrecognized [OF ne v, of dbg st] by blast
    next
      case True
      then show ?thesis
        using process_response_end [OF v, of dbg st] process_response_device [OF v, of dbg st]
        by blast
    qed
  qed
qed

lemma checksum_valid_device_frame:
  "checksum_valid [0xFD, 0x46, 0x03, 0x00, 0x00, 0x01, 0x2C, 0x05, 0x24, 0x22]"
  by code_simp

lemma checksum_valid_short_device_frame:
  "checksum_valid [0xFD, 0x46, 0x03, 0x00, 0x00, 0x01, 0x5D, 0xBD]"
  by code_simp

lemma checksum_valid_other_subcommand: "checksum_valid [0xFD, 0x46, 0x05, 0x12, 0x53]"
  by code_simp

lemma checksum_valid_end_frame: "checksum_valid [0xFD, 0x46, 0x04, 0xD3, 0x93]"
  by code_simp

lemma checksum_valid_three_bytes: "checksum_valid [0x01, 0x7E, 0x80]"
  by code_simp

text \<open>
  Claim C1, as stated, fails. The length test of \<open>parse_and_print_response\<close> counts the
  entries of \<open>hex_array\<close>, from which \<open>bytes_to_hex_array\<close> has already dropped the two
  checksum bytes. A frame of 10 bytes with the device-found header and a valid checksum is
  decoded (serial number 300, address 5), and one of 8 bytes in all is rejected.
\<close>

theorem device_frame_length_counterexample:
  "process_response [0xFD, 0x46, 0x03, 0x00, 0x00, 0x01, 0x2C, 0x05, 0x24, 0x22] False initial_state =
     (Inr False, \<lparr>device_counter = 1, printed = [MsgTableHeader, MsgTableRule, MsgRow 1 300 5]\<rparr>) \<and>
   process_response [0xFD, 0x46, 0x03, 0x00, 0x00, 0x01, 0x5D, 0xBD] False initial_state =
     (Inr False, \<lparr>device_counter = 0, printed = [MsgWrongSize]\<rparr>)"
  using process_response_device [OF checksum_valid_device_frame, of False initial_state]
    process_response_device [OF checksum_valid_short_device_frame, of False initial_state]
  by (simp add: with_row_def big_endian_4_def initial_state_def print_def)

text \<open>
  Claim C1, amended. For every response with a valid checksum, the broadcast address, the
  extended function code and byte 2 equal to 0x03: the frame is decoded exactly when it has
  10 bytes in all (8 before the two checksum bytes), and any other length is reported as a
  record of the wrong size, with no device counted. The serial number is the big-endian
  value of bytes 3 to 6 and the bus address is byte 7; for the serial-number bytes
  \<open>[0x00, 0x00, 0x01, 0x2C]\<close> followed by \<open>0x05\<close> these are 300 and 5. (In debug
  mode the hexadecimal dump of the frame is printed first.)
\<close>

theorem device_found_record:
  assumes "checksum_valid r" and "3 \<le> length r"
    and "r ! 0 = 0xFD" and "r ! 1 = 0x46" and "r ! 2 = 0x03"
  shows "process_response r dbg st =
           (Inr False,
            if length r = 10
            then with_row (big_endian_4 (r ! 3) (r ! 4) (r ! 5) (r ! 6)) (uint (r ! 7))
                   (if dbg then print (MsgDebugResponse (bytes_to_hex_array r)) st else st)
            else print MsgWrongSize
                   (if dbg then print (MsgDebugResponse (bytes_to_hex_array r)) st else st)) \<and>
         (length r = 10 \<and> r ! 3 = 0x00 \<and> r ! 4 = 0x00 \<and> r ! 5 = 0x01 \<and> r ! 6 = 0x2C \<and> r ! 7 = 0x05
            \<longrightarrow> process_response r dbg st =
                  (Inr False,
                   with_row 300 5
                     (if dbg then print (MsgDebugResponse (bytes_to_hex_array r)) st else st)))"
  using process_response_device [OF assms, of dbg st]
  by (simp add: big_endian_4_def)

theorem device_found_record_witness:
  "checksum_valid [0xFD, 0x46, 0x03, 0x00, 0x00, 0x01, 0x2C, 0x05, 0x24, 0x22] \<and>
   process_response [0xFD, 0x46, 0x03, 0x00, 0x00, 0x01, 0x2C, 0x05, 0x24, 0x22] False initial_state =
     (Inr False, with_row 300 5 initial_state)"
  using device_found_record [OF checksum_valid_device_frame, of False initial_state]
    checksum_valid_device_frame
  by (simp add: big_endian_4_def)

text \<open>
  Claim C3. \<open>process_response\<close> returns \<open>True\<close> (stop) if and only if the response is
  empty, or its last two bytes, little-endian, equal the CRC of the bytes before them and
  bytes 0, 1 and 2 are 0xFD, 0x46 and 0x04. In every other case it returns \<open>False\<close>; it
  never raises.
\<close>

theorem process_response_stops_iff:
  "\<exists>st'. process_response r dbg st =
     (Inr (r = [] \<or>
           (checksum_valid r \<and> 3 \<le> length r \<and> r ! 0 = 0xFD \<and> r ! 1 = 0x46 \<and> r ! 2 = 0x04)),
      st')"
proof (cases "r = []")
  case True
  then show ?thesis using process_response_empty [of dbg st] by simp
next
  case ne: False
  show ?thesis
  proof (cases "checksum_valid r")
    case False
    then show ?thesis using ne process_response_mismatch [OF ne, of dbg st] by simp
  next
    case v: True
    show ?thesis
    proof (cases "3 \<le> length r \<and> r ! 0 = 0xFD \<and> r ! 1 = 0x46 \<and> (r ! 2 = 3 \<or> r ! 2 = 4)")
      case False
      then show ?thesis using ne v process_response_unrecognized [OF ne v, of dbg st] by auto
    next
      case True
      show ?thesis
      proof (cases "r ! 2 = 4")
        case True
        with \<open>3 \<le> length r \<and> r ! 0 = 0xFD \<and> r ! 1 = 0x46 \<and> (r ! 2 = 3 \<or> r ! 2 = 4)\<close>
        show ?thesis using ne v process_response_end [OF v, of dbg st] by simp
      next
        case False
        with \<open>3 \<le> length r \<and> r ! 0 = 0xFD \<and> r ! 1 = 0x46 \<and> (r ! 2 = 3 \<or> r ! 2 = 4)\<close>
        show ?thesis using ne v process_response_device [OF v, of dbg st] by simp
      qed
    qed
  qed
qed

text \<open>
  Claim C4, as stated, fails: \<open>process_response\<close> has no test on the length. A response of
  one byte goes through the checksum test and is reported as a checksum error; one of three
  bytes whose checksum matches is reported as an unrecognized frame.
\<close>

theorem short_frame_counterexample:
  "process_response [0x01] False initial_state =
     (Inr False, \<lparr>device_counter = 0, printed = [MsgChecksumError, MsgRawResponse []]\<rparr>) \<and>
   process_response [0x01, 0x7E, 0x80] False initial_state =
     (Inr False, \<lparr>device_counter = 0, printed = [MsgUnrecognized]\<rparr>)"
proof -
  have "process_response [0x01] False initial_state =
     (Inr False, \<lparr>device_counter = 0, printed = [MsgChecksumError, MsgRawResponse []]\<rparr>)"
    using process_response_mismatch [of "[0x01]" False initial_state]
    by (simp add: not_checksum_valid_1 initial_state_def print_def bytes_to_hex_array_def)
  moreover have "process_response [0x01, 0x7E, 0x80] False initial_state =
     (Inr False, \<lparr>device_counter = 0, printed = [MsgUnrecognized]\<rparr>)"
    using process_response_unrecognized [OF _ checksum_valid_three_bytes, of False initial_state]
    by (simp add: initial_state_def print_def)
  ultimately show ?thesis by simp
qed

text \<open>
  Claim C4, amended. For every non-empty response of fewer than 5 bytes the checksum test
  is applied as for any other frame: when it fails, the checksum error and the raw bytes
  are printed; when it passes, the frame is reported as unrecognized. In both cases the
  result is \<open>False\<close> (continue) and no device is counted.
\<close>

theorem short_frame_no_length_check:
  assumes "r \<noteq> []" and "length r < 5"
  shows "process_response r dbg st =
           (Inr False,
            if checksum_valid r then print MsgUnrecognized st
            else print (MsgRawResponse (bytes_to_hex_array r)) (print MsgChecksumError st))"
proof (cases "checksum_valid r")
  case False
  then show ?thesis using process_response_mismatch [OF assms(1), of dbg st] by simp
next
  case True
  have "\<not> (3 \<le> length r \<and> r ! 0 = 0xFD \<and> r ! 1 = 0x46 \<and> (r ! 2 = 3 \<or> r ! 2 = 4))"
    using scan_reply_length [OF True] assms(2) by auto
  then show ?thesis
    using True process_response_unrecognized [OF assms(1) True, of dbg st] by simp
qed

theorem short_frame_no_length_check_witness:
  "[0x01, 0x7E, 0x80 :: byte] \<noteq> [] \<and> length [0x01, 0x7E, 0x80 :: byte] < 5 \<and>
   process_response [0x01, 0x7E, 0x80] False initial_state =
     (Inr False, print MsgUnrecognized initial_state)"
  using short_frame_no_length_check [of "[0x01, 0x7E, 0x80]" False initial_state]
    checksum_valid_three_bytes
  by simp

text \<open>
  Claim C7. For every non-empty response whose checksum test passes: if byte 0 is not 0xFD,
  or byte 1 is not 0x46, or byte 2 is neither 0x03 nor 0x04 (or there are no such bytes),
  the frame is reported as unrecognized, the state is otherwise unchanged (no device is
  counted or printed), and the result is \<open>False\<close> (continue).
\<close>

theorem unrecognized_frame:
  assumes "r \<noteq> []" and "checksum_valid r"
    and "\<not> (3 \<le> length r \<and> r ! 0 = 0xFD \<and> r ! 1 = 0x46 \<and> (r ! 2 = 0x03 \<or> r ! 2 = 0x04))"
  shows "process_response r dbg st = (Inr False, print MsgUnrecognized st)"
  using process_response_unrecognized [OF assms] .

theorem unrecognized_frame_witness:
  "[0xFD, 0x46, 0x05, 0x12, 0x53 :: byte] \<noteq> [] \<and> checksum_valid [0xFD, 0x46, 0x05, 0x12, 0x53] \<and>
   process_response [0xFD, 0x46, 0x05, 0x12, 0x53] False initial_state =
     (Inr False, print MsgUnrecognized initial_state)"
  using unrecognized_frame [OF _ checksum_valid_other_subcommand, of False initial_state]
    checksum_valid_other_subcommand
  by simp

text \<open>
  Claim C10. On a response without any 0xFF byte, \<open>process_response\<close> returns a boolean
  and never raises IndexError. When the checksum test fails the outcome is decided without
  the header bytes; the test cannot pass on 1 or 2 bytes; no frame of 3 or 4 bytes with
  the header 0xFD, 0x46, 0x03 passes it; so whenever the header test succeeds,
  \<open>parse_and_print_response\<close> receives at least 3 entries.
\<close>

theorem process_response_never_out_of_range:
  assumes "0xFF \<notin> set r"
  shows "(\<exists>b st'. process_response r dbg st = (Inr b, st')) \<and>
         (r \<noteq> [] \<and> \<not> checksum_valid r \<longrightarrow>
            process_response r dbg st =
              (Inr False, print (MsgRawResponse (bytes_to_hex_array r)) (print MsgChecksumError st))) \<and>
         (length r = 1 \<or> length r = 2 \<longrightarrow> \<not> checksum_valid r) \<and>
         ((length r = 3 \<or> length r = 4) \<and> r ! 0 = 0xFD \<and> r ! 1 = 0x46 \<and> r ! 2 = 0x03
            \<longrightarrow> \<not> checksum_valid r) \<and>
         (r \<noteq> [] \<and> checksum_valid r \<and> is_scan_reply r = Inr True
            \<longrightarrow> 3 \<le> length (bytes_to_hex_array r))"
proof -
  have short: "\<not> checksum_valid r" if "length r = 1 \<or> length r = 2"
  proof
    assume v: "checksum_valid r"
    from that consider b where "r = [b]" | a b where "r = [a, b]"
      by (auto simp add: numeral_eq_Suc length_Suc_conv)
    then show False
    proof cases
      case 1
      with v show False by (simp add: not_checksum_valid_1)
    next
      case 2
      with v have "a = 0xFF" using checksum_valid_2 by blast
      with 2 assms show False by simp
    qed
  qed
  have header: "\<not> checksum_valid r"
    if "(length r = 3 \<or> length r = 4) \<and> r ! 0 = 0xFD \<and> r ! 1 = 0x46 \<and> r ! 2 = 0x03"
  proof
    assume "checksum_valid r"
    then have "5 \<le> length r" using scan_reply_length [of r] that by auto
    with that show False by auto
  qed
  have parser: "3 \<le> length (bytes_to_hex_array r)"
    if "r \<noteq> [] \<and> checksum_valid r \<and> is_scan_reply r = Inr True"
  proof -
    from that have h: "3 \<le> length r \<and> r ! 0 = 0xFD \<and> r ! 1 = 0x46 \<and> (r ! 2 = 3 \<or> r ! 2 = 4)"
      using is_scan_reply_valid [of r] by simp
    with that have "5 \<le> length r" using scan_reply_length [of r] by blast
    then show ?thesis by (simp add: length_bytes_to_hex_array)
  qed
  show ?thesis
    using process_response_total [of r dbg st] process_response_mismatch [of r dbg st]
      short header parser
    by blast
qed

theorem process_response_never_out_of_range_witness:
  "0xFF \<notin> set [0x01 :: byte] \<and>
   (\<exists>b st'. process_response [0x01] False initial_state = (Inr b, st')) \<and>
   \<not> checksum_valid [0x01]"
  using process_response_never_out_of_range [of "[0x01]" False initial_state]
  by auto

section \<open>The reporter\<close>

lemma row_numbers_append: "row_numbers (xs @ ys) = row_numbers xs @ row_numbers ys"
  by (induction xs rule: row_numbers.induct) simp_all

lemma rates_scanned_append: "rates_scanned (xs @ ys) = rates_scanned xs @ rates_scanned ys"
  by (induction xs rule: rates_scanned.induct) simp_all

lemma reporter_inv_print:
  assumes "reporter_inv st" and "m \<noteq> MsgTableHeader" and "row_numbers [m] = []"
  shows "reporter_inv (print m st)"
proof (cases "device_counter st = 0")
  case True
  with assms show ?thesis
    by (simp add: reporter_inv_def print_def row_numbers_append)
next
  case False
  with assms(1) obtain pre s a post where
    d: "printed st = pre @ [MsgTableHeader, MsgTableRule, MsgRow 1 s a] @ post"
      "MsgTableHeader \<notin> set pre" "row_numbers pre = []" "MsgTableHeader \<notin> set post"
    unfolding reporter_inv_def by auto
  have "printed (print m st) = pre @ [MsgTableHeader, MsgTableRule, MsgRow 1 s a] @ (post @ [m])"
    using d(1) by (simp add: print_def)
  moreover have "MsgTableHeader \<notin> set (post @ [m])"
    using d(4) assms(2) by simp
  ultimately have "\<exists>pre s a post. printed (print m st) = pre @ [MsgTableHeader, MsgTableRule, MsgRow 1 s a] @ post \<and>
      MsgTableHeader \<notin> set pre \<and> row_numbers pre = [] \<and> MsgTableHeader \<notin> set post"
    using d(2,3) by blast
  moreover have "device_counter (print m st) = device_counter st"
    by (simp add: print_def)
  moreover have "row_numbers (printed (print m st)) = row_numbers (printed st)"
    using assms(3) by (simp add: print_def row_numbers_append)
  ultimately show ?thesis
    using assms(1) False unfolding reporter_inv_def by simp
qed

lemma reporter_inv_with_row:
  assumes "reporter_inv st"
  shows "reporter_inv (with_row s a st)"
proof (cases "device_counter st = 0")
  case True
  with assms have q: "MsgTableHeader \<notin> set (printed st)" "row_numbers (printed st) = []"
    by (simp_all add: reporter_inv_def)
  have "printed (with_row s a st) = printed st @ [MsgTableHeader, MsgTableRule, MsgRow 1 s a] @ []"
    using True by (simp add: with_row_def)
  with q have "\<exists>pre s' a' post. printed (with_row s a st) = pre @ [MsgTableHeader, MsgTableRule, MsgRow 1 s' a'] @ post \<and>
      MsgTableHeader \<notin> set pre \<and> row_numbers pre = [] \<and> MsgTableHeader \<notin> set post"
    by (metis empty_iff list.set(1))
  moreover have "device_counter (with_row s a st) = 1"
    using True by (simp add: with_row_def)
  moreover have "row_numbers (printed (with_row s a st)) = [1]"
    using True q by (simp add: with_row_def row_numbers_append)
  ultimately show ?thesis
    unfolding reporter_inv_def by simp
next
  case False
  with assms obtain pre s' a' post where
    d: "printed st = pre @ [MsgTableHeader, MsgTableRule, MsgRow 1 s' a'] @ post"
      "MsgTableHeader \<notin> set pre" "row_numbers pre = []" "MsgTableHeader \<notin> set post"
    unfolding reporter_inv_def by auto
  from assms have pos: "0 \<le> device_counter st" and rows: "row_numbers (printed st) = [1..device_counter st]"
    by (simp_all add: reporter_inv_def)
  let ?n = "device_counter st + 1"
  have "printed (with_row s a st) =
        pre @ [MsgTableHeader, MsgTableRule, MsgRow 1 s' a'] @ (post @ [MsgRow ?n s a])"
    using False d(1) by (simp add: with_row_def)
  moreover have "MsgTableHeader \<notin> set (post @ [MsgRow ?n s a])"
    using d(4) by simp
  ultimately have "\<exists>pre s' a' post. printed (with_row s a st) = pre @ [MsgTableHeader, MsgTableRule, MsgRow 1 s' a'] @ post \<and>
      MsgTableHeader \<notin> set pre \<and> row_numbers pre = [] \<and> MsgTableHeader \<notin> set post"
    using d(2,3) by blast
  moreover have "device_counter (with_row s a st) = ?n"
    by (simp add: with_row_def)
  moreover have "row_numbers (printed (with_row s a st)) = [1..?n]"
    using False rows pos by (simp add: with_row_def row_numbers_append upto_rec2)
  ultimately show ?thesis
    using pos False unfolding reporter_inv_def by simp
qed

lemma reporter_inv_initial: "reporter_inv initial_state"
  by (simp add: reporter_inv_def initial_state_def)

section \<open>Steps of the scan\<close>

lemma extends_quietly_refl: "extends_quietly st st"
  by (simp add: extends_quietly_def)

lemma extends_quietly_trans:
  assumes "extends_quietly a b" and "extends_quietly b c"
  shows "extends_quietly a c"
proof -
  from assms obtain e1 e2 where "printed b = printed a @ e1" "rates_scanned e1 = []"
    "printed c = printed b @ e2" "rates_scanned e2 = []"
    unfolding extends_quietly_def by blast
  then have "printed c = printed a @ (e1 @ e2) \<and> rates_scanned (e1 @ e2) = []"
    by (simp add: rates_scanned_append)
  then show ?thesis
    using assms unfolding extends_quietly_def by blast
qed

lemma extends_quietly_print:
  assumes "m \<noteq> MsgTableHeader" and "row_numbers [m] = []" and "rates_scanned [m] = []"
  shows "extends_quietly st (print m st)"
proof -
  have "printed (print m st) = printed st @ [m]" by (simp add: print_def)
  with assms(3) have "\<exists>ext. printed (print m st) = printed st @ ext \<and> rates_scanned ext = []"
    by blast
  then show ?thesis
    using reporter_inv_print [OF _ assms(1,2)] unfolding extends_quietly_def by blast
qed

lemma extends_quietly_with_row: "extends_quietly st (with_row s a st)"
proof -
  have "printed (with_row s a st) =
        printed st @ ((if device_counter st = 0 then [MsgTableHeader, MsgTableRule] else [])
                      @ [MsgRow (device_counter st + 1) s a])"
    by (simp add: with_row_def)
  moreover have "rates_scanned ((if device_counter st = 0 then [MsgTableHeader, MsgTableRule] else [])
                      @ [MsgRow (device_counter st + 1) s a]) = []"
    by simp
  ultimately have "\<exists>ext. printed (with_row s a st) = printed st @ ext \<and> rates_scanned ext = []"
    by blast
  then show ?thesis
    using reporter_inv_with_row unfolding extends_quietly_def by blast
qed

lemma process_response_extends:
  assumes "process_response r dbg st = (res, st')"
  shows "extends_quietly st st'"
proof (cases "r = []")
  case True
  with assms show ?thesis
    using extends_quietly_print [of MsgScanComplete st] by (simp add: process_response_empty)
next
  case ne: False
  show ?thesis
  proof (cases "checksum_valid r")
    case False
    have "extends_quietly st (print MsgChecksumError st)"
      by (rule extends_quietly_print) simp_all
    moreover have "extends_quietly (print MsgChecksumError st)
        (print (MsgRawResponse (bytes_to_hex_array r)) (print MsgChecksumError st))"
      by (rule extends_quietly_print) simp_all
    ultimately show ?thesis
      using assms process_response_mismatch [OF ne False, of dbg st] extends_quietly_trans by auto
  next
    case v: True
    show ?thesis
    proof (cases "3 \<le> length r \<and> r ! 0 = 0xFD \<and> r ! 1 = 0x46 \<and> (r ! 2 = 3 \<or> r ! 2 = 4)")
      case False
      then show ?thesis
        using assms process_response_unrecognized [OF ne v, of dbg st]
          extends_quietly_print [of MsgUnrecognized st] by simp
    next
      case h: True
      let ?st1 = "if dbg then print (MsgDebugResponse (bytes_to_hex_array r)) st else st"
      have s1: "extends_quietly st ?st1"
        using extends_quietly_print [of "MsgDebugResponse (bytes_to_hex_array r)" st]
        by (simp add: extends_quietly_refl)
      show ?thesis
      proof (cases "r ! 2 = 4")
        case True
        with h show ?thesis
          using assms process_response_end [OF v, of dbg st]
            extends_quietly_print [of MsgScanComplete st] by simp
      next
        case False
        with h have e: "st' = (if length r \<noteq> 10 then print MsgWrongSize ?st1
            else with_row (big_endian_4 (r ! 3) (r ! 4) (r ! 5) (r ! 6)) (uint (r ! 7)) ?st1)"
          using assms process_response_device [OF v, of dbg st] by simp
        have "extends_quietly ?st1 st'"
          unfolding e
          using extends_quietly_print [of MsgWrongSize ?st1] extends_quietly_with_row [of ?st1]
          by simp
        with s1 show ?thesis by (rule extends_quietly_trans)
      qed
    qed
  qed
qed

lemma process_response_stop:
  "fst (process_response r dbg st) = Inr (ends_scan r)"
proof (cases "r = []")
  case True
  then show ?thesis by (simp add: process_response_empty ends_scan_def)
next
  case ne: False
  show ?thesis
  proof (cases "checksum_valid r")
    case False
    then show ?thesis using ne process_response_mismatch [OF ne, of dbg st] by (simp add: ends_scan_def)
  next
    case v: True
    show ?thesis
    proof (cases "3 \<le> length r \<and> r ! 0 = 0xFD \<and> r ! 1 = 0x46 \<and> (r ! 2 = 3 \<or> r ! 2 = 4)")
      case False
      then show ?thesis using ne v process_response_unrecognized [OF ne v, of dbg st]
        by (auto simp add: ends_scan_def)
    next
      case h: True
      show ?thesis
      proof (cases "r ! 2 = 4")
        case True
        with h show ?thesis using ne v process_response_end [OF v, of dbg st]
          by (simp add: ends_scan_def)
      next
        case False
        with h show ?thesis using ne v process_response_device [OF v, of dbg st]
          by (simp add: ends_scan_def)
      qed
    qed
  qed
qed

section \<open>The continue loop\<close>

lemma process_response_cases:
  obtains st' where "process_response r dbg st = (Inr (ends_scan r), st')" and "extends_quietly st st'"
proof -
  obtain res st' where p: "process_response r dbg st = (res, st')"
    by (cases "process_response r dbg st")
  then have "res = Inr (ends_scan r)"
    using process_response_stop [of r dbg st] by simp
  with p process_response_extends [OF p] that show ?thesis by blast
qed

lemma continue_scan_sound:
  assumes "continue_scan ser dbg st = Some y"
  shows "extends_quietly st (snd y) \<and> (fst y = Inr () \<or> fst y = Inl SerialException)"
proof (rule continue_scan.raw_induct
    [where P = "\<lambda>ser dbg st y. extends_quietly st (snd y) \<and> (fst y = Inr () \<or> fst y = Inl SerialException)",
      OF _ assms])
  fix f :: "serial_port \<Rightarrow> bool \<Rightarrow> state \<Rightarrow> ((error + unit) \<times> state) option"
  fix ser debug st y
  assume IH: "\<And>ser debug st y. f ser debug st = Some y \<Longrightarrow>
      extends_quietly st (snd y) \<and> (fst y = Inr () \<or> fst y = Inl SerialException)"
  assume step: "(case create_command BROADCAST_ADDRESS EXTENDED_FUNCTION_CODE CONTINUE_SCAN_SUBCOMMAND of
        Inl e \<Rightarrow> Some (Inl e, st)
      | Inr continue_scan_command \<Rightarrow>
     (case send_command ser continue_scan_command of
        Inl e \<Rightarrow> Some (Inl e, st)
      | Inr (response, ser') \<Rightarrow>
     (case process_response response debug st of
        (Inl e, st') \<Rightarrow> Some (Inl e, st')
      | (Inr stop, st') \<Rightarrow> if stop then Some (Inr (), st') else f ser' debug st'))) = Some y"
  show "extends_quietly st (snd y) \<and> (fst y = Inr () \<or> fst y = Inl SerialException)"
  proof (cases "line ser (exchanged ser) [0xFD, 0x46, 0x02, 0x53, 0x91]")
    case PortFailure
    with step show ?thesis
      by (auto simp add: create_command_continue send_command_def extends_quietly_refl)
  next
    case (Received raw)
    obtain st1 where p: "process_response (denoise raw) debug st = (Inr (ends_scan (denoise raw)), st1)"
      and e: "extends_quietly st st1"
      by (rule process_response_cases)
    show ?thesis
    proof (cases "ends_scan (denoise raw)")
      case True
      with step Received p e show ?thesis
        by (auto simp add: create_command_continue send_command_def)
    next
      case False
      with step Received p
      have "f (ser\<lparr>exchanged := Suc (exchanged ser)\<rparr>) debug st1 = Some y"
        by (simp add: create_command_continue send_command_def)
      from IH [OF this] e show ?thesis
        using extends_quietly_trans by blast
    qed
  qed
qed

lemma continue_scan_terminates:
  assumes "exchange_ends ser (exchanged ser + j) [0xFD, 0x46, 0x02, 0x53, 0x91]"
  shows "\<exists>y. continue_scan ser dbg st = Some y"
  using assms
proof (induction j arbitrary: ser st)
  case 0
  show ?case
  proof (cases "line ser (exchanged ser) [0xFD, 0x46, 0x02, 0x53, 0x91]")
    case PortFailure
    then show ?thesis
      by (subst continue_scan.simps) (simp add: create_command_continue send_command_def)
  next
    case (Received raw)
    obtain st1 where p: "process_response (denoise raw) dbg st = (Inr (ends_scan (denoise raw)), st1)"
      by (rule process_response_cases)
    from 0 Received have "ends_scan (denoise raw)"
      by (simp add: exchange_ends_def)
    with Received p show ?thesis
      by (subst continue_scan.simps) (simp add: create_command_continue send_command_def)
  qed
next
  case (Suc j)
  show ?case
  proof (cases "line ser (exchanged ser) [0xFD, 0x46, 0x02, 0x53, 0x91]")
    case PortFailure
    then show ?thesis
      by (subst continue_scan.simps) (simp add: create_command_continue send_command_def)
  next
    case (Received raw)
    obtain st1 where p: "process_response (denoise raw) dbg st = (Inr (ends_scan (denoise raw)), st1)"
      by (rule process_response_cases)
    show ?thesis
    proof (cases "ends_scan (denoise raw)")
      case True
      with Received p show ?thesis
        by (subst continue_scan.simps) (simp add: create_command_continue send_command_def)
    next
      case False
      let ?ser' = "ser\<lparr>exchanged := Suc (exchanged ser)\<rparr>"
      have "exchange_ends ?ser' (exchanged ?ser' + j) [0xFD, 0x46, 0x02, 0x53, 0x91]"
        using Suc.prems by (simp add: exchange_ends_def)
      from Suc.IH [OF this, of st1] obtain y where "continue_scan ?ser' dbg st1 = Some y" ..
      with Received p False show ?thesis
        by (subst continue_scan.simps) (simp add: create_command_continue send_command_def)
    qed
  qed
qed

section \<open>One baud rate\<close>

lemma scan_open_port_sound:
  assumes "scan_open_port ser dbg st = Some y"
  shows "extends_quietly st (snd y) \<and> (fst y = Inr () \<or> fst y = Inl SerialException)"
proof (cases "line ser (exchanged ser) [0xFD, 0x46, 0x01, 0x13, 0x90]")
  case PortFailure
  with assms show ?thesis
    by (auto simp add: scan_open_port_def create_command_start send_command_def extends_quietly_refl)
next
  case (Received raw)
  obtain st1 where p: "process_response (denoise raw) dbg st = (Inr (ends_scan (denoise raw)), st1)"
    and e: "extends_quietly st st1"
    by (rule process_response_cases)
  show ?thesis
  proof (cases "ends_scan (denoise raw)")
    case True
    with assms Received p e show ?thesis
      by (auto simp add: scan_open_port_def create_command_start send_command_def)
  next
    case False
    with assms Received p
    have "continue_scan (ser\<lparr>exchanged := Suc (exchanged ser)\<rparr>) dbg st1 = Some y"
      by (simp add: scan_open_port_def create_command_start send_command_def)
    from continue_scan_sound [OF this] e show ?thesis
      using extends_quietly_trans by blast
  qed
qed

lemma scan_open_port_terminates:
  assumes "session_ends ser"
  shows "\<exists>y. scan_open_port ser dbg st = Some y"
proof (cases "line ser (exchanged ser) [0xFD, 0x46, 0x01, 0x13, 0x90]")
  case PortFailure
  then show ?thesis
    by (simp add: scan_open_port_def create_command_start send_command_def)
next
  case (Received raw)
  obtain st1 where p: "process_response (denoise raw) dbg st = (Inr (ends_scan (denoise raw)), st1)"
    by (rule process_response_cases)
  show ?thesis
  proof (cases "ends_scan (denoise raw)")
    case True
    with Received p show ?thesis
      by (simp add: scan_open_port_def create_command_start send_command_def)
  next
    case False
    let ?ser' = "ser\<lparr>exchanged := Suc (exchanged ser)\<rparr>"
    from assms False Received obtain j where
      "exchange_ends ser (exchanged ser + Suc j) [0xFD, 0x46, 0x02, 0x53, 0x91]"
      by (auto simp add: session_ends_def exchange_ends_def)
    then have "exchange_ends ?ser' (exchanged ?ser' + j) [0xFD, 0x46, 0x02, 0x53, 0x91]"
      by (simp add: exchange_ends_def)
    from continue_scan_terminates [OF this, of dbg st1]
    obtain y where "continue_scan ?ser' dbg st1 = Some y" ..
    with Received p False show ?thesis
      by (simp add: scan_open_port_def create_command_start send_command_def)
  qed
qed

lemma scan_baud_rate_sound:
  assumes "scan_baud_rate serial_Serial dbg baud st = Some y"
  shows "fst y = Inr () \<and>
         (\<exists>ext. printed (snd y) = printed st @ MsgScanning baud # ext \<and> rates_scanned ext = [] \<and>
                (serial_Serial baud = None \<longrightarrow> ext = [MsgOpenError baud])) \<and>
         (reporter_inv st \<longrightarrow> reporter_inv (snd y))"
proof -
  let ?st1 = "print (MsgScanning baud) st"
  have inv1: "reporter_inv st \<longrightarrow> reporter_inv ?st1"
    using reporter_inv_print [of st "MsgScanning baud"] by simp
  have pr1: "printed ?st1 = printed st @ [MsgScanning baud]"
    by (simp add: print_def)
  show ?thesis
  proof (cases "serial_Serial baud")
    case None
    with assms have y: "y = (Inr (), print (MsgOpenError baud) ?st1)"
      by (simp add: scan_baud_rate_def Let_def)
    have "reporter_inv ?st1 \<longrightarrow> reporter_inv (print (MsgOpenError baud) ?st1)"
      using reporter_inv_print [of ?st1 "MsgOpenError baud"] by simp
    with inv1 None show ?thesis
      unfolding y by (simp add: print_def)
  next
    case (Some ser)
    with assms obtain z where z: "scan_open_port ser dbg ?st1 = Some z"
      by (cases "scan_open_port ser dbg ?st1") (simp_all add: scan_baud_rate_def Let_def)
    from scan_open_port_sound [OF z] obtain ext where
      e: "printed (snd z) = printed ?st1 @ ext" "rates_scanned ext = []"
      and i: "reporter_inv ?st1 \<longrightarrow> reporter_inv (snd z)"
      and r: "fst z = Inr () \<or> fst z = Inl SerialException"
      unfolding extends_quietly_def by blast
    from r show ?thesis
    proof
      assume "fst z = Inr ()"
      with assms Some z have "y = (Inr (), snd z)"
        by (cases z) (auto simp add: scan_baud_rate_def Let_def)
      with e i inv1 Some pr1 show ?thesis by simp
    next
      assume "fst z = Inl SerialException"
      with assms Some z have y: "y = (Inr (), print (MsgOpenError baud) (snd z))"
        by (cases z) (auto simp add: scan_baud_rate_def Let_def)
      have "reporter_inv (snd z) \<longrightarrow> reporter_inv (print (MsgOpenError baud) (snd z))"
        using reporter_inv_print [of "snd z" "MsgOpenError baud"] by simp
      moreover have "printed (print (MsgOpenError baud) (snd z)) =
          printed st @ MsgScanning baud # (ext @ [MsgOpenError baud])"
        using e pr1 by (simp add: print_def)
      moreover have "rates_scanned (ext @ [MsgOpenError baud]) = []"
        using e(2) by (simp add: rates_scanned_append)
      ultimately show ?thesis
        using i inv1 Some unfolding y by auto
    qed
  qed
qed

lemma scan_baud_rate_terminates:
  assumes "\<forall>ser. serial_Serial baud = Some ser \<longrightarrow> session_ends ser"
  shows "\<exists>y. scan_baud_rate serial_Serial dbg baud st = Some y"
proof (cases "serial_Serial baud")
  case None
  then show ?thesis by (simp add: scan_baud_rate_def Let_def)
next
  case (Some ser)
  with assms have "session_ends ser" by simp
  from scan_open_port_terminates [OF this, of dbg "print (MsgScanning baud) st"]
  obtain z where z: "scan_open_port ser dbg (print (MsgScanning baud) st) = Some z" ..
  from scan_open_port_sound [OF z] have "fst z = Inr () \<or> fst z = Inl SerialException" by simp
  with Some z show ?thesis
    by (cases z) (auto simp add: scan_baud_rate_def Let_def)
qed

section \<open>The sweep over the baud rates\<close>

lemma scan_baud_rates_sound:
  assumes "scan_baud_rates serial_Serial dbg rs st = Some y"
  shows "fst y = Inr () \<and>
         (\<exists>ext. printed (snd y) = printed st @ ext \<and> rates_scanned ext = rs \<and>
                (\<forall>b \<in> set rs. serial_Serial b = None \<longrightarrow>
                   sublist [MsgScanning b, MsgOpenError b] ext)) \<and>
         (reporter_inv st \<longrightarrow> reporter_inv (snd y))"
  using assms
proof (induction rs arbitrary: st)
  case Nil
  then show ?case by auto
next
  case (Cons baud rs)
  from Cons.prems obtain z where z: "scan_baud_rate serial_Serial dbg baud st = Some z"
    by (cases "scan_baud_rate serial_Serial dbg baud st") simp_all
  note sz = scan_baud_rate_sound [OF z]
  from sz have r: "fst z = Inr ()" and i1: "reporter_inv st \<longrightarrow> reporter_inv (snd z)"
    by simp_all
  from sz have "\<exists>ext. printed (snd z) = printed st @ MsgScanning baud # ext \<and> rates_scanned ext = [] \<and>
                (serial_Serial baud = None \<longrightarrow> ext = [MsgOpenError baud])"
    by simp
  then obtain e1 where
    e1: "printed (snd z) = printed st @ MsgScanning baud # e1" "rates_scanned e1 = []"
      "serial_Serial baud = None \<longrightarrow> e1 = [MsgOpenError baud]"
    by (elim exE conjE)
  obtain u st1 where zz: "z = (Inr u, st1)"
    using r by (cases z) auto
  from Cons.prems z have "scan_baud_rates serial_Serial dbg rs (snd z) = Some y"
    unfolding zz by simp
  note sy = Cons.IH [OF this]
  from sy have ry: "fst y = Inr ()" and i2: "reporter_inv (snd z) \<longrightarrow> reporter_inv (snd y)"
    by simp_all
  from sy have "\<exists>ext. printed (snd y) = printed (snd z) @ ext \<and> rates_scanned ext = rs \<and>
      (\<forall>b \<in> set rs. serial_Serial b = None \<longrightarrow> sublist [MsgScanning b, MsgOpenError b] ext)"
    by simp
  then obtain e2 where
    e2: "printed (snd y) = printed (snd z) @ e2" "rates_scanned e2 = rs"
      "\<forall>b \<in> set rs. serial_Serial b = None \<longrightarrow> sublist [MsgScanning b, MsgOpenError b] e2"
    by (elim exE conjE)
  let ?ext = "MsgScanning baud # e1 @ e2"
  have p: "printed (snd y) = printed st @ ?ext"
    using e1(1) e2(1) by simp
  have s: "rates_scanned ?ext = baud # rs"
    using e1(2) e2(2) by (simp add: rates_scanned_append)
  have "sublist [MsgScanning b, MsgOpenError b] ?ext"
    if "b \<in> set (baud # rs)" and "serial_Serial b = None" for b
  proof (cases "b = baud")
    case True
    with that e1(3) have "?ext = [] @ [MsgScanning b, MsgOpenError b] @ e2" by simp
    then show ?thesis unfolding sublist_def by blast
  next
    case False
    with that e2(3) have "sublist [MsgScanning b, MsgOpenError b] e2" by simp
    then obtain ps ss where "e2 = ps @ [MsgScanning b, MsgOpenError b] @ ss"
      unfolding sublist_def by blast
    then have "?ext = (MsgScanning baud # e1 @ ps) @ [MsgScanning b, MsgOpenError b] @ ss"
      by simp
    then show ?thesis unfolding sublist_def by blast
  qed
  then have "\<forall>b \<in> set (baud # rs). serial_Serial b = None \<longrightarrow>
      sublist [MsgScanning b, MsgOpenError b] ?ext"
    by blast
  with p s have "\<exists>ext. printed (snd y) = printed st @ ext \<and> rates_scanned ext = baud # rs \<and>
      (\<forall>b \<in> set (baud # rs). serial_Serial b = None \<longrightarrow>
         sublist [MsgScanning b, MsgOpenError b] ext)"
    by (intro exI [of _ ?ext]) simp
  with ry i1 i2 show ?case by simp
qed

lemma scan_baud_rates_terminates:
  assumes "\<forall>b \<in> set rs. \<forall>ser. serial_Serial b = Some ser \<longrightarrow> session_ends ser"
  shows "\<exists>y. scan_baud_rates serial_Serial dbg rs st = Some y"
  using assms
proof (induction rs arbitrary: st)
  case Nil
  show ?case by simp
next
  case (Cons baud rs)
  from Cons.prems have h: "\<forall>ser. serial_Serial baud = Some ser \<longrightarrow> session_ends ser"
    and t: "\<forall>b \<in> set rs. \<forall>ser. serial_Serial b = Some ser \<longrightarrow> session_ends ser"
    by simp_all
  obtain z where z: "scan_baud_rate serial_Serial dbg baud st = Some z"
    using scan_baud_rate_terminates [of serial_Serial baud dbg st] h by blast
  from scan_baud_rate_sound [OF z] have r: "fst z = Inr ()" by simp
  obtain y where y: "scan_baud_rates serial_Serial dbg rs (snd z) = Some y"
    using Cons.IH [OF t, of "snd z"] by blast
  obtain u st1 where zz: "z = (Inr u, st1)"
    using r by (cases z) auto
  have "scan_baud_rates serial_Serial dbg (baud # rs) st = Some y"
    using z y unfolding zz by simp
  then show ?case by blast
qed

lemma ends_scan_01: "\<not> ends_scan [0x01]"
  by (simp add: ends_scan_def not_checksum_valid_1)

lemma continue_scan_babbling:
  assumes "line ser = (\<lambda>k command. Received [0x01])"
  shows "continue_scan ser dbg st = None"
proof (rule ccontr)
  assume "continue_scan ser dbg st \<noteq> None"
  then obtain y where y: "continue_scan ser dbg st = Some y" by blast
  have "line ser \<noteq> (\<lambda>k command. Received [0x01])"
  proof (rule continue_scan.raw_induct
      [where P = "\<lambda>ser dbg st y. line ser \<noteq> (\<lambda>k command. Received [0x01])", OF _ y])
    fix f :: "serial_port \<Rightarrow> bool \<Rightarrow> state \<Rightarrow> ((error + unit) \<times> state) option"
    fix ser debug st y
    assume IH: "\<And>ser debug st y. f ser debug st = Some y \<Longrightarrow>
        line ser \<noteq> (\<lambda>k command. Received [0x01])"
    assume step: "(case create_command BROADCAST_ADDRESS EXTENDED_FUNCTION_CODE CONTINUE_SCAN_SUBCOMMAND of
          Inl e \<Rightarrow> Some (Inl e, st)
        | Inr continue_scan_command \<Rightarrow>
       (case send_command ser continue_scan_command of
          Inl e \<Rightarrow> Some (Inl e, st)
        | Inr (response, ser') \<Rightarrow>
       (case process_response response debug st of
          (Inl e, st') \<Rightarrow> Some (Inl e, st')
        | (Inr stop, st') \<Rightarrow> if stop then Some (Inr (), st') else f ser' debug st'))) = Some y"
    show "line ser \<noteq> (\<lambda>k command. Received [0x01])"
    proof
      assume l: "line ser = (\<lambda>k command. Received [0x01])"
      obtain st1 where p: "process_response [0x01] debug st = (Inr (ends_scan [0x01]), st1)"
        by (rule process_response_cases)
      from step l p have "f (ser\<lparr>exchanged := Suc (exchanged ser)\<rparr>) debug st1 = Some y"
        by (simp add: create_command_continue send_command_def denoise_def ends_scan_01)
      from IH [OF this] l show False by simp
    qed
  qed
  with assms show False by simp
qed

section \<open>A run on the example bus\<close>

lemma checksum_valid_second_device:
  "checksum_valid [0xFD, 0x46, 0x03, 0x00, 0x00, 0x00, 0x07, 0x09, 0x6B, 0x17]"
  by code_simp

lemma process_response_first_device:
  "process_response [0xFD, 0x46, 0x03, 0x00, 0x00, 0x01, 0x2C, 0x05, 0x24, 0x22] False st =
   (Inr False, with_row 300 5 st)"
  using process_response_device [OF checksum_valid_device_frame, of False st]
  by (simp add: big_endian_4_def)

lemma process_response_second_device:
  "process_response [0xFD, 0x46, 0x03, 0x00, 0x00, 0x00, 0x07, 0x09, 0x6B, 0x17] False st =
   (Inr False, with_row 7 9 st)"
  using process_response_device [OF checksum_valid_second_device, of False st]
  by (simp add: big_endian_4_def)

lemma process_response_end_frame:
  "process_response [0xFD, 0x46, 0x04, 0xD3, 0x93] False st = (Inr True, print MsgScanComplete st)"
  using process_response_end [OF checksum_valid_end_frame, of False st] by simp

lemma session_115200:
  "scan_open_port
     \<lparr>line = (\<lambda>k command.
                if k = 0 then Received [0xFD, 0x46, 0x03, 0x00, 0x00, 0x01, 0x2C, 0x05, 0x24, 0x22]
                else Received []),
      exchanged = 0\<rparr> False st =
   Some (Inr (), print MsgScanComplete (with_row 300 5 st))"
  unfolding scan_open_port_def
  by (subst continue_scan.simps)
    (simp add: create_command_start create_command_continue send_command_def denoise_def
      process_response_first_device process_response_empty)

lemma session_9600:
  "scan_open_port
     \<lparr>line = (\<lambda>k command.
                if k = 0 then Received [0xFD, 0x46, 0x03, 0x00, 0x00, 0x01, 0x2C, 0x05, 0x24, 0x22]
                else if k = 1
                then Received [0xFF, 0xFD, 0x46, 0x03, 0x00, 0x00, 0x00, 0x07, 0x09, 0x6B, 0x17]
                else Received [0xFD, 0x46, 0x04, 0xD3, 0x93]),
      exchanged = 0\<rparr> False st =
   Some (Inr (), print MsgScanComplete (with_row 7 9 (with_row 300 5 st)))"
  unfolding scan_open_port_def
  apply (simp add: create_command_start send_command_def denoise_def process_response_first_device)
  apply (subst continue_scan.simps)
  apply (simp add: create_command_continue send_command_def denoise_def process_response_second_device)
  apply (subst continue_scan.simps)
  apply (simp add: create_command_continue send_command_def denoise_def process_response_end_frame)
  done

lemma scan_baud_rate_closed:
  assumes "serial_Serial baud = None"
  shows "scan_baud_rate serial_Serial dbg baud st =
         Some (Inr (), print (MsgOpenError baud) (print (MsgScanning baud) st))"
  using assms by (simp add: scan_baud_rate_def Let_def)

lemma scan_baud_rate_115200:
  "scan_baud_rate example_bus False 115200 st =
   Some (Inr (), print MsgScanComplete (with_row 300 5 (print (MsgScanning 115200) st)))"
  by (simp add: scan_baud_rate_def Let_def example_bus_def session_115200)

lemma scan_baud_rate_9600:
  "scan_baud_rate example_bus False 9600 st =
   Some (Inr (), print MsgScanComplete (with_row 7 9 (with_row 300 5 (print (MsgScanning 9600) st))))"
  by (simp add: scan_baud_rate_def Let_def example_bus_def session_9600)

lemma example_bus_closed:
  "example_bus 57600 = None" "example_bus 38400 = None" "example_bus 19200 = None"
  "example_bus 4800 = None" "example_bus 2400 = None" "example_bus 1200 = None"
  by (simp_all add: example_bus_def)

lemma main_example:
  "main example_bus False =
   Some (Inr (),
     \<lparr>device_counter = 3,
      printed =
        [MsgScanning 115200, MsgTableHeader, MsgTableRule, MsgRow 1 300 5,
         MsgScanComplete, MsgScanning 57600, MsgOpenError 57600,
         MsgScanning 38400, MsgOpenError 38400, MsgScanning 19200,
         MsgOpenError 19200, MsgScanning 9600, MsgRow 2 300 5, MsgRow 3 7 9,
         MsgScanComplete, MsgScanning 4800, MsgOpenError 4800,
         MsgScanning 2400, MsgOpenError 2400, MsgScanning 1200,
         MsgOpenError 1200]\<rparr>)"
  unfolding main_def BAUD_RATES_def
  by (simp add: scan_baud_rate_115200 scan_baud_rate_9600 scan_baud_rate_closed example_bus_closed)
    (simp add: initial_state_def print_def with_row_def)


section \<open>The whole run\<close>

lemma main_sound:
  assumes "main serial_Serial debug = Some y"
  shows "fst y = Inr ()" and "reporter_inv (snd y)"
    and "rates_scanned (printed (snd y)) = BAUD_RATES"
    and "\<forall>b \<in> set BAUD_RATES. serial_Serial b = None \<longrightarrow>
           sublist [MsgScanning b, MsgOpenError b] (printed (snd y))"
proof -
  note s = scan_baud_rates_sound [OF assms [unfolded main_def]]
  from s show "fst y = Inr ()" by simp
  from s show "reporter_inv (snd y)" using reporter_inv_initial by simp
  from s have "\<exists>ext. printed (snd y) = printed initial_state @ ext \<and> rates_scanned ext = BAUD_RATES \<and>
      (\<forall>b \<in> set BAUD_RATES. serial_Serial b = None \<longrightarrow> sublist [MsgScanning b, MsgOpenError b] ext)"
    by simp
  then obtain ext where e: "printed (snd y) = printed initial_state @ ext"
    "rates_scanned ext = BAUD_RATES"
    "\<forall>b \<in> set BAUD_RATES. serial_Serial b = None \<longrightarrow> sublist [MsgScanning b, MsgOpenError b] ext"
    by (elim exE conjE)
  from e(1) have "printed (snd y) = ext" by (simp add: initial_state_def)
  with e(2,3) show "rates_scanned (printed (snd y)) = BAUD_RATES"
    and "\<forall>b \<in> set BAUD_RATES. serial_Serial b = None \<longrightarrow>
           sublist [MsgScanning b, MsgOpenError b] (printed (snd y))"
    by simp_all
qed

text \<open>
  Claim C9. The reporter's invariant holds in a fresh process and every call of
  \<open>process_response\<close> keeps it, whatever the response; so at the end of a run the rows
  carry the sequence numbers 1, 2, 3, ... up to the number of devices reported, counted
  across the baud rates without a reset, and the table header is printed once, directly
  before the first row (and not at all when no device is reported).
\<close>

theorem sequence_numbers_and_header:
  "reporter_inv initial_state \<and>
   (reporter_inv s \<longrightarrow> reporter_inv (snd (process_response r dbg s))) \<and>
   (main serial_Serial debug = Some (res, st) \<longrightarrow>
      row_numbers (printed st) = [1..device_counter st] \<and>
      (device_counter st = 0 \<longrightarrow> MsgTableHeader \<notin> set (printed st)) \<and>
      (device_counter st \<noteq> 0 \<longrightarrow>
         (\<exists>pre serial_number modbus_address post.
            printed st = pre @ [MsgTableHeader, MsgTableRule, MsgRow 1 serial_number modbus_address] @ post \<and>
            MsgTableHeader \<notin> set pre \<and> row_numbers pre = [] \<and> MsgTableHeader \<notin> set post)))"
proof (intro conjI impI)
  show "reporter_inv initial_state" by (rule reporter_inv_initial)
next
  assume i: "reporter_inv s"
  obtain x s' where p: "process_response r dbg s = (x, s')"
    by (cases "process_response r dbg s")
  from process_response_extends [OF p] i show "reporter_inv (snd (process_response r dbg s))"
    unfolding extends_quietly_def p by simp
next
  assume m: "main serial_Serial debug = Some (res, st)"
  have inv: "reporter_inv st"
    using main_sound(2) [OF m] by simp
  then show "row_numbers (printed st) = [1..device_counter st]"
    unfolding reporter_inv_def by simp
  {
    assume "device_counter st = 0"
    with inv show "MsgTableHeader \<notin> set (printed st)"
      unfolding reporter_inv_def by simp
  }
  {
    assume "device_counter st \<noteq> 0"
    with inv show "\<exists>pre serial_number modbus_address post.
            printed st = pre @ [MsgTableHeader, MsgTableRule, MsgRow 1 serial_number modbus_address] @ post \<and>
            MsgTableHeader \<notin> set pre \<and> row_numbers pre = [] \<and> MsgTableHeader \<notin> set post"
      unfolding reporter_inv_def by simp
  }
qed

theorem sequence_numbers_and_header_witness:
  "main example_bus False =
     Some (Inr (),
       \<lparr>device_counter = 3,
        printed =
          [MsgScanning 115200, MsgTableHeader, MsgTableRule, MsgRow 1 300 5,
           MsgScanComplete, MsgScanning 57600, MsgOpenError 57600,
           MsgScanning 38400, MsgOpenError 38400, MsgScanning 19200,
           MsgOpenError 19200, MsgScanning 9600, MsgRow 2 300 5, MsgRow 3 7 9,
           MsgScanComplete, MsgScanning 4800, MsgOpenError 4800,
           MsgScanning 2400, MsgOpenError 2400, MsgScanning 1200,
           MsgOpenError 1200]\<rparr>) \<and>
   row_numbers
     [MsgScanning 115200, MsgTableHeader, MsgTableRule, MsgRow 1 300 5,
      MsgScanComplete, MsgScanning 57600, MsgOpenError 57600,
      MsgScanning 38400, MsgOpenError 38400, MsgScanning 19200,
      MsgOpenError 19200, MsgScanning 9600, MsgRow 2 300 5, MsgRow 3 7 9,
      MsgScanComplete, MsgScanning 4800, MsgOpenError 4800,
      MsgScanning 2400, MsgOpenError 2400, MsgScanning 1200,
      MsgOpenError 1200] = [1..3]"
  using sequence_numbers_and_header [of initial_state "[]" False example_bus False "Inr ()"
      "\<lparr>device_counter = 3,
        printed =
          [MsgScanning 115200, MsgTableHeader, MsgTableRule, MsgRow 1 300 5,
           MsgScanComplete, MsgScanning 57600, MsgOpenError 57600,
           MsgScanning 38400, MsgOpenError 38400, MsgScanning 19200,
           MsgOpenError 19200, MsgScanning 9600, MsgRow 2 300 5, MsgRow 3 7 9,
           MsgScanComplete, MsgScanning 4800, MsgOpenError 4800,
           MsgScanning 2400, MsgOpenError 2400, MsgScanning 1200,
           MsgOpenError 1200]\<rparr>"]
    main_example
  by simp

text \<open>
  Claim C8, as stated, fails. The loop \<open>while True\<close> of a session ends only on an empty
  read, an end-of-scan frame or an exception of the port. On a bus where every read
  returns the byte 0x01, each response fails the checksum test, the session at 115200 baud
  never ends, and the sweep never reaches the other rates.
\<close>

theorem sweep_stuck_counterexample:
  "scan_baud_rate babbling_bus False 115200 initial_state = None \<and>
   main babbling_bus False = None"
proof -
  have c: "continue_scan \<lparr>line = (\<lambda>k command. Received [0x01]), exchanged = Suc 0\<rparr> False st = None" for st
    by (rule continue_scan_babbling) simp
  have p: "scan_open_port \<lparr>line = (\<lambda>k command. Received [0x01]), exchanged = 0\<rparr> False st = None" for st
  proof -
    obtain st1 where "process_response [0x01] False st = (Inr (ends_scan [0x01]), st1)"
      by (rule process_response_cases)
    then show ?thesis
      by (simp add: scan_open_port_def create_command_start send_command_def denoise_def
          ends_scan_01 c)
  qed
  have r: "scan_baud_rate babbling_bus False 115200 st = None" for st
    by (simp add: scan_baud_rate_def Let_def babbling_bus_def p)
  then show ?thesis
    by (simp add: main_def BAUD_RATES_def)
qed

text \<open>
  Claim C8, amended. Provided the session of every port that opens ends (the port raises,
  or some read is empty or a valid end-of-scan frame), \<open>main\<close> returns without an
  exception and has announced the rates 115200, 57600, 38400, 19200, 9600, 4800, 2400,
  1200, each once and in this order, whatever the sessions found; at a rate whose port
  does not open, the failure is reported directly after the announcement and the sweep goes on.
\<close>

theorem sweep_attempts_every_rate:
  assumes "\<forall>baud_rate \<in> set BAUD_RATES. \<forall>ser. serial_Serial baud_rate = Some ser \<longrightarrow> session_ends ser"
  shows "\<exists>st. main serial_Serial debug = Some (Inr (), st) \<and>
           rates_scanned (printed st) = [115200, 57600, 38400, 19200, 9600, 4800, 2400, 1200] \<and>
           (\<forall>baud_rate \<in> set BAUD_RATES. serial_Serial baud_rate = None \<longrightarrow>
              sublist [MsgScanning baud_rate, MsgOpenError baud_rate] (printed st))"
proof -
  obtain y where y: "main serial_Serial debug = Some y"
    using scan_baud_rates_terminates [OF assms, of debug initial_state] unfolding main_def by blast
  note m = main_sound [OF y]
  obtain u st where yy: "y = (Inr u, st)"
    using m(1) by (cases y) auto
  have "main serial_Serial debug = Some (Inr (), st)"
    using y yy by simp
  moreover have "rates_scanned (printed st) = [115200, 57600, 38400, 19200, 9600, 4800, 2400, 1200]"
    using m(3) yy by (simp add: BAUD_RATES_def)
  moreover have "\<forall>baud_rate \<in> set BAUD_RATES. serial_Serial baud_rate = None \<longrightarrow>
              sublist [MsgScanning baud_rate, MsgOpenError baud_rate] (printed st)"
    using m(4) yy by simp
  ultimately show ?thesis by blast
qed

lemma example_bus_sessions_end:
  "\<forall>baud_rate \<in> set BAUD_RATES. \<forall>ser. example_bus baud_rate = Some ser \<longrightarrow> session_ends ser"
proof -
  have a: "session_ends \<lparr>line = (\<lambda>k command.
                if k = 0 then Received [0xFD, 0x46, 0x03, 0x00, 0x00, 0x01, 0x2C, 0x05, 0x24, 0x22]
                else Received []),
      exchanged = 0\<rparr>"
    unfolding session_ends_def
    by (rule disjI2, rule exI [of _ 0]) (simp add: exchange_ends_def denoise_def ends_scan_def)
  have b: "session_ends \<lparr>line = (\<lambda>k command.
                if k = 0 then Received [0xFD, 0x46, 0x03, 0x00, 0x00, 0x01, 0x2C, 0x05, 0x24, 0x22]
                else if k = 1
                then Received [0xFF, 0xFD, 0x46, 0x03, 0x00, 0x00, 0x00, 0x07, 0x09, 0x6B, 0x17]
                else Received [0xFD, 0x46, 0x04, 0xD3, 0x93]),
      exchanged = 0\<rparr>"
    unfolding session_ends_def
    by (rule disjI2, rule exI [of _ 1])
      (simp add: exchange_ends_def denoise_def ends_scan_def checksum_valid_end_frame)
  show ?thesis
    using a b by (simp add: BAUD_RATES_def example_bus_def)
qed

theorem sweep_attempts_every_rate_witness:
  "\<exists>st. main example_bus False = Some (Inr (), st) \<and>
      rates_scanned (printed st) = [115200, 57600, 38400, 19200, 9600, 4800, 2400, 1200] \<and>
      sublist [MsgScanning 57600, MsgOpenError 57600] (printed st)"
proof -
  from sweep_attempts_every_rate [OF example_bus_sessions_end, of False]
  obtain st where st: "main example_bus False = Some (Inr (), st)"
    "rates_scanned (printed st) = [115200, 57600, 38400, 19200, 9600, 4800, 2400, 1200]"
    "\<forall>baud_rate \<in> set BAUD_RATES. example_bus baud_rate = None \<longrightarrow>
              sublist [MsgScanning baud_rate, MsgOpenError baud_rate] (printed st)"
    by (elim exE conjE)
  from st(3) have "sublist [MsgScanning 57600, MsgOpenError 57600] (printed st)"
    by (simp add: BAUD_RATES_def example_bus_def)
  with st(1,2) show ?thesis by blast
qed

end
